theory Spec2Isabelle
  imports Complex_Main "HOL-Library.Product_Lexorder"
begin

section \<open>Strings as Python sees them\<close>

text \<open>
  A Python \<open>str\<close> is modelled as a \<open>string\<close>; one \<open>char\<close> stands for one code point
  below 256, and \<open>len\<close> is \<open>length\<close>.  \<open>isspace\<close> is \<open>str.isspace\<close> on one such code
  point, which is also what the pattern \<open>\s\<close> accepts: tab, line feed, vertical tab, form
  feed, carriage return, the four separators 28..31, the blank, NEL (133) and the
  no-break space (160).
\<close>

definition isspace :: "char \<Rightarrow> bool" where
  "isspace c = (of_char c \<in> {9, 10, 11, 12, 13, 28, 29, 30, 31, 32, 133, 160 :: nat})"

text \<open>\<open>s.strip()\<close>: leading and trailing whitespace removed.\<close>

definition strip :: "string \<Rightarrow> string" where
  "strip s = rev (dropWhile isspace (rev (dropWhile isspace s)))"

text \<open>\<open>text[a:b]\<close> for indices that are not negative.\<close>

definition slice :: "'a list \<Rightarrow> nat \<Rightarrow> nat \<Rightarrow> 'a list" where
  "slice xs a b = take (b - a) (drop a xs)"

section \<open>The markup-preserving annotator: \<open>apply_highlights_to_text\<close>\<close>

text \<open>
  The tags of \<open>difflib\<close>'s opcodes.  Python compares them as strings, so
  \<open>'delete' < 'equal' < 'insert' < 'replace'\<close>; \<open>tag_rank\<close> is that order.
\<close>

datatype opcode_tag = Replace | Delete | Insert | Equal

fun tag_rank :: "opcode_tag \<Rightarrow> nat" where
  "tag_rank Delete = 0"
| "tag_rank Equal = 1"
| "tag_rank Insert = 2"
| "tag_rank Replace = 3"

type_synonym change_range = "nat \<times> nat \<times> opcode_tag"

text \<open>
  The first loop of \<open>apply_highlights_to_text\<close>: the ranges that meet the segment
  \<open>[text_start_pos, text_end_pos)\<close>, clipped to it and made relative to it.
  \<open>max(0, start - text_start_pos)\<close> is the truncating subtraction of \<open>nat\<close>.
\<close>

fun overlaps :: "nat \<Rightarrow> nat \<Rightarrow> change_range list \<Rightarrow> change_range list" where
  "overlaps text_start_pos n [] = []"
| "overlaps text_start_pos n ((start, end, change_type) # rs) =
     (if start < text_start_pos + n \<and> end > text_start_pos
      then (start - text_start_pos, min n (end - text_start_pos), change_type)
             # overlaps text_start_pos n rs
      else overlaps text_start_pos n rs)"

text \<open>\<open>overlapping.sort()\<close>: tuples in lexicographic order.\<close>

definition sort_ranges :: "change_range list \<Rightarrow> change_range list" where
  "sort_ranges rs = sort_key (\<lambda>(s, e, t). (s, e, tag_rank t)) rs"

text \<open>
  The highlighted piece: a \<open>mark\<close> element for \<open>replace\<close> and for \<open>insert\<close>; the
  \<open>if\<close>/\<open>elif\<close> has no \<open>else\<close>, so any other tag appends nothing.
\<close>

fun mark :: "opcode_tag \<Rightarrow> string \<Rightarrow> string" where
  "mark Replace t = ''<mark class=\"preview-text-changed\">'' @ t @ ''</mark>''"
| "mark Insert t = ''<mark class=\"preview-text-added\">'' @ t @ ''</mark>''"
| "mark _ t = []"

text \<open>The second loop, with \<open>last_end\<close> as the loop variable, and the remaining text.\<close>

fun build_highlights :: "string \<Rightarrow> nat \<Rightarrow> change_range list \<Rightarrow> string" where
  "build_highlights text last_end [] =
     (if last_end < length text then drop last_end text else [])"
| "build_highlights text last_end ((overlap_start, overlap_end, change_type) # rs) =
     (if overlap_start > last_end then slice text last_end overlap_start else [])
       @ mark change_type (slice text overlap_start overlap_end)
       @ build_highlights text overlap_end rs"

definition apply_highlights_to_text :: "string \<Rightarrow> nat \<Rightarrow> change_range list \<Rightarrow> string" where
  "apply_highlights_to_text text text_start_pos changed_ranges =
     (if strip text = [] then text
      else let overlapping = overlaps text_start_pos (length text) changed_ranges
           in if overlapping = [] then text
              else build_highlights text 0 (sort_ranges overlapping))"

section \<open>\<open>difflib.SequenceMatcher(None, a, b)\<close>\<close>

text \<open>
  The script compares with Python's \<open>difflib.SequenceMatcher\<close>, always built with
  \<open>isjunk = None\<close> and the default \<open>autojunk = True\<close>.  The definitions below follow
  CPython's \<open>Lib/difflib.py\<close> method by method, for sequences of any element type
  (characters for \<open>ratio\<close> on two texts, words for \<open>get_opcodes\<close>).

  \<open>__chain_b\<close>: \<open>b2j\<close> maps an element to the ascending list of its positions in \<open>b\<close>.
  With no junk test the junk set is empty.  When \<open>b\<close> has 200 elements or more, the
  elements that occur more than \<open>len(b) // 100 + 1\<close> times are popular and are deleted
  from \<open>b2j\<close>.
\<close>

definition isbjunk :: "'a \<Rightarrow> bool" where
  "isbjunk x = False"

definition popular :: "'a list \<Rightarrow> 'a \<Rightarrow> bool" where
  "popular b x = (length b \<ge> 200 \<and> count_list b x > length b div 100 + 1)"

definition b2j :: "'a list \<Rightarrow> 'a \<Rightarrow> nat list" where
  "b2j b x = (if popular b x then [] else filter (\<lambda>j. b ! j = x) [0..<length b])"

text \<open>
  \<open>find_longest_match\<close>, the inner loop \<open>for j in b2j.get(a[i], nothing)\<close>.  The state
  is \<open>newj2len\<close> and the best match so far.  \<open>j2len.get(j-1, 0)\<close> is 0 at \<open>j = 0\<close>, the
  key \<open>-1\<close> never being stored.  \<open>k\<close> never exceeds \<open>i + 1\<close> and \<open>j + 1\<close> (lemma
  \<open>flm_row_bounds\<close> below), so Python's \<open>i-k+1\<close> and \<open>j-k+1\<close> are \<open>i + 1 - k\<close> and
  \<open>j + 1 - k\<close> on \<open>nat\<close>.
\<close>

type_synonym match = "nat \<times> nat \<times> nat"

fun flm_row :: "(nat \<rightharpoonup> nat) \<Rightarrow> nat \<Rightarrow> nat \<Rightarrow> nat \<Rightarrow> nat list
    \<Rightarrow> (nat \<rightharpoonup> nat) \<times> match \<Rightarrow> (nat \<rightharpoonup> nat) \<times> match" where
  "flm_row j2len i blo bhi [] st = st"
| "flm_row j2len i blo bhi (j # js) (newj2len, besti, bestj, bestsize) =
     (if j < blo then flm_row j2len i blo bhi js (newj2len, besti, bestj, bestsize)
      else if j \<ge> bhi then (newj2len, besti, bestj, bestsize)
      else
        let k = (if j = 0 then 0 else case j2len (j - 1) of None \<Rightarrow> 0 | Some v \<Rightarrow> v) + 1
        in if k > bestsize
           then flm_row j2len i blo bhi js (newj2len(j \<mapsto> k), i + 1 - k, j + 1 - k, k)
           else flm_row j2len i blo bhi js (newj2len(j \<mapsto> k), besti, bestj, bestsize))"

text \<open>The outer loop \<open>for i in range(alo, ahi)\<close>, with \<open>j2len = newj2len\<close> after each row.\<close>

fun flm_rows :: "'a list \<Rightarrow> 'a list \<Rightarrow> nat \<Rightarrow> nat \<Rightarrow> nat list
    \<Rightarrow> (nat \<rightharpoonup> nat) \<times> match \<Rightarrow> match" where
  "flm_rows a b blo bhi [] (j2len, best) = best"
| "flm_rows a b blo bhi (i # is) (j2len, best) =
     flm_rows a b blo bhi is (flm_row j2len i blo bhi (b2j b (a ! i)) (Map.empty, best))"

text \<open>
  The four \<open>while\<close> loops that extend the match: to the left and to the right over
  equal elements that are not junk, then over equal elements that are junk.  \<open>want\<close>
  is the test on the element of \<open>b\<close>.
\<close>

function extend_left :: "('a \<Rightarrow> bool) \<Rightarrow> 'a list \<Rightarrow> 'a list \<Rightarrow> nat \<Rightarrow> nat \<Rightarrow> match \<Rightarrow> match" where
  "extend_left want a b alo blo (besti, bestj, bestsize) =
     (if besti > alo \<and> bestj > blo \<and> want (b ! (bestj - 1)) \<and> a ! (besti - 1) = b ! (bestj - 1)
      then extend_left want a b alo blo (besti - 1, bestj - 1, bestsize + 1)
      else (besti, bestj, bestsize))"
  by pat_completeness auto
termination
  by (relation "measure (\<lambda>(want, a, b, alo, blo, besti, bestj, bestsize). besti)") auto

function extend_right :: "('a \<Rightarrow> bool) \<Rightarrow> 'a list \<Rightarrow> 'a list \<Rightarrow> nat \<Rightarrow> nat \<Rightarrow> match \<Rightarrow> match" where
  "extend_right want a b ahi bhi (besti, bestj, bestsize) =
     (if besti + bestsize < ahi \<and> bestj + bestsize < bhi \<and> want (b ! (bestj + bestsize))
         \<and> a ! (besti + bestsize) = b ! (bestj + bestsize)
      then extend_right want a b ahi bhi (besti, bestj, bestsize + 1)
      else (besti, bestj, bestsize))"
  by pat_completeness auto
termination
  by (relation "measure (\<lambda>(want, a, b, ahi, bhi, besti, bestj, bestsize). ahi - (besti + bestsize))") auto

declare extend_left.simps [simp del] extend_right.simps [simp del]

definition find_longest_match :: "'a list \<Rightarrow> 'a list \<Rightarrow> nat \<Rightarrow> nat \<Rightarrow> nat \<Rightarrow> nat \<Rightarrow> match" where
  "find_longest_match a b alo ahi blo bhi =
     (let best = flm_rows a b blo bhi [alo..<ahi] (Map.empty, alo, blo, 0);
          best = extend_left (\<lambda>x. \<not> isbjunk x) a b alo blo best;
          best = extend_right (\<lambda>x. \<not> isbjunk x) a b ahi bhi best;
          best = extend_left isbjunk a b alo blo best;
          best = extend_right isbjunk a b ahi bhi best
      in best)"

text \<open>
  The match that \<open>find_longest_match\<close> returns lies inside the window it was asked
  about, in \<open>a\<close> and in \<open>b\<close>.  \<open>get_matching_blocks\<close> needs this to terminate; it also
  means that the windows it queues stay inside the two sequences, so that every read
  \<open>a[i]\<close> and \<open>b[j]\<close> of the model is in range, as it is in Python.
\<close>

lemma flm_row_bounds:
  assumes "\<forall>j v. j2len j = Some v \<longrightarrow> v + alo \<le> i \<and> v + blo \<le> j + 1"
      and "alo \<le> i" "i < ahi"
      and "\<forall>j v. newj2len j = Some v \<longrightarrow> v + alo \<le> i + 1 \<and> v + blo \<le> j + 1"
      and "alo \<le> besti" "bestsize = 0 \<and> besti = alo \<or> besti + bestsize \<le> ahi"
      and "blo \<le> bestj" "bestsize = 0 \<and> bestj = blo \<or> bestj + bestsize \<le> bhi"
      and "flm_row j2len i blo bhi js (newj2len, besti, bestj, bestsize) = (m', bi', bj', bs')"
  shows "(\<forall>j v. m' j = Some v \<longrightarrow> v + alo \<le> i + 1 \<and> v + blo \<le> j + 1)
       \<and> alo \<le> bi' \<and> (bs' = 0 \<and> bi' = alo \<or> bi' + bs' \<le> ahi)
       \<and> blo \<le> bj' \<and> (bs' = 0 \<and> bj' = blo \<or> bj' + bs' \<le> bhi)"
  using assms(4-9)
proof (induction js arbitrary: newj2len besti bestj bestsize)
  case Nil
  from Nil.prems(6) have eq: "m' = newj2len" "bi' = besti" "bj' = bestj" "bs' = bestsize"
    by simp_all
  show ?case unfolding eq using Nil.prems(1-5) by blast
next
  case (Cons j js)
  define k where "k = (if j = 0 then 0 else case j2len (j - 1) of None \<Rightarrow> 0 | Some v \<Rightarrow> v) + 1"
  show ?case
  proof (cases "j < blo")
    case True
    have run: "flm_row j2len i blo bhi js (newj2len, besti, bestj, bestsize) = (m', bi', bj', bs')"
      using Cons.prems(6) True by simp
    show ?thesis by (rule Cons.IH[OF Cons.prems(1-5) run])
  next
    case nlo: False
    show ?thesis
    proof (cases "j \<ge> bhi")
      case True
      from Cons.prems(6) nlo True
      have eq: "m' = newj2len" "bi' = besti" "bj' = bestj" "bs' = bestsize"
        by simp_all
      show ?thesis unfolding eq using Cons.prems(1-5) by blast
    next
      case False
      have ki: "k + alo \<le> i + 1"
      proof (cases "j = 0 \<or> j2len (j - 1) = None")
        case True
        then have "k = 1" by (auto simp: k_def)
        then show ?thesis using assms(2) by simp
      next
        case False
        then obtain v where v: "j2len (j - 1) = Some v" "0 < j" by auto
        with assms(1) have "v + alo \<le> i" by blast
        moreover have "k = v + 1" using v by (simp add: k_def)
        ultimately show ?thesis by simp
      qed
      have kj: "k + blo \<le> j + 1"
      proof (cases "j = 0 \<or> j2len (j - 1) = None")
        case True
        then have "k = 1" by (auto simp: k_def)
        then show ?thesis using nlo by simp
      next
        case False
        then obtain v where v: "j2len (j - 1) = Some v" "0 < j" by auto
        with assms(1) have "v + blo \<le> j - 1 + 1" by blast
        moreover have "k = v + 1" using v by (simp add: k_def)
        ultimately show ?thesis using v(2) by simp
      qed
      have newm: "\<forall>j' v. (newj2len(j \<mapsto> k)) j' = Some v \<longrightarrow> v + alo \<le> i + 1 \<and> v + blo \<le> j' + 1"
      proof (intro allI impI)
        fix j' v assume a: "(newj2len(j \<mapsto> k)) j' = Some v"
        show "v + alo \<le> i + 1 \<and> v + blo \<le> j' + 1"
        proof (cases "j' = j")
          case True
          with a have "v = k" by simp
          with ki kj True show ?thesis by simp
        next
          case False
          with a have "newj2len j' = Some v" by simp
          with Cons.prems(1) show ?thesis by blast
        qed
      qed
      show ?thesis
      proof (cases "k > bestsize")
        case True
        have run: "flm_row j2len i blo bhi js (newj2len(j \<mapsto> k), i + 1 - k, j + 1 - k, k) = (m', bi', bj', bs')"
          using Cons.prems(6) nlo False True by (simp add: k_def Let_def)
        have f1: "alo \<le> i + 1 - k" using ki by arith
        have f2: "k = 0 \<and> i + 1 - k = alo \<or> i + 1 - k + k \<le> ahi" using ki assms(3) by arith
        have f3: "blo \<le> j + 1 - k" using kj by arith
        have f4: "k = 0 \<and> j + 1 - k = blo \<or> j + 1 - k + k \<le> bhi" using kj False by arith
        show ?thesis by (rule Cons.IH[OF newm f1 f2 f3 f4 run])
      next
        case nb: False
        have run: "flm_row j2len i blo bhi js (newj2len(j \<mapsto> k), besti, bestj, bestsize) = (m', bi', bj', bs')"
          using Cons.prems(6) nlo False nb by (simp add: k_def Let_def)
        show ?thesis by (rule Cons.IH[OF newm Cons.prems(2-5) run])
      qed
    qed
  qed
qed

lemma flm_rows_bounds:
  assumes "\<forall>j v. j2len j = Some v \<longrightarrow> v + alo \<le> i0 \<and> v + blo \<le> j + 1"
      and "alo \<le> i0"
      and "alo \<le> besti" "bestsize = 0 \<and> besti = alo \<or> besti + bestsize \<le> ahi"
      and "blo \<le> bestj" "bestsize = 0 \<and> bestj = blo \<or> bestj + bestsize \<le> bhi"
      and "flm_rows a b blo bhi [i0..<ahi] (j2len, besti, bestj, bestsize) = (bi', bj', bs')"
  shows "alo \<le> bi' \<and> (bs' = 0 \<and> bi' = alo \<or> bi' + bs' \<le> ahi)
       \<and> blo \<le> bj' \<and> (bs' = 0 \<and> bj' = blo \<or> bj' + bs' \<le> bhi)"
  using assms
proof (induction "ahi - i0" arbitrary: i0 j2len besti bestj bestsize)
  case 0
  then have "[i0..<ahi] = []" by simp
  with "0.prems"(7) have eq: "bi' = besti" "bj' = bestj" "bs' = bestsize" by simp_all
  show ?case unfolding eq using "0.prems"(3-6) by blast
next
  case (Suc n)
  then have lt: "i0 < ahi" by simp
  obtain m1 b1 c1 s1 where row:
    "flm_row j2len i0 blo bhi (b2j b (a ! i0)) (Map.empty, besti, bestj, bestsize) = (m1, b1, c1, s1)"
    by (metis prod_cases4)
  have empty: "\<forall>j v. Map.empty j = Some v \<longrightarrow> v + alo \<le> i0 + 1 \<and> v + blo \<le> j + 1"
    by simp
  have inv: "(\<forall>j v. m1 j = Some v \<longrightarrow> v + alo \<le> i0 + 1 \<and> v + blo \<le> j + 1)
       \<and> alo \<le> b1 \<and> (s1 = 0 \<and> b1 = alo \<or> b1 + s1 \<le> ahi)
       \<and> blo \<le> c1 \<and> (s1 = 0 \<and> c1 = blo \<or> c1 + s1 \<le> bhi)"
    by (rule flm_row_bounds[OF Suc.prems(1,2) lt empty Suc.prems(3,4,5,6) row])
  have rest: "flm_rows a b blo bhi [Suc i0..<ahi] (m1, b1, c1, s1) = (bi', bj', bs')"
    using Suc.prems(7) lt row by (simp add: upt_conv_Cons)
  have n: "n = ahi - Suc i0" using Suc.hyps(2) by simp
  have i1: "\<forall>j v. m1 j = Some v \<longrightarrow> v + alo \<le> Suc i0 \<and> v + blo \<le> j + 1"
    using inv by simp
  have i2: "alo \<le> Suc i0" using Suc.prems(2) by simp
  have i3: "alo \<le> b1" and i4: "s1 = 0 \<and> b1 = alo \<or> b1 + s1 \<le> ahi"
    and i5: "blo \<le> c1" and i6: "s1 = 0 \<and> c1 = blo \<or> c1 + s1 \<le> bhi"
    using inv by blast+
  show ?case by (rule Suc.hyps(1)[OF n i1 i2 i3 i4 i5 i6 rest])
qed

text \<open>\<open>in_window\<close>: a match lies inside the window, or is the empty match at its start.\<close>

definition in_window :: "nat \<Rightarrow> nat \<Rightarrow> nat \<Rightarrow> nat \<Rightarrow> match \<Rightarrow> bool" where
  "in_window alo ahi blo bhi best =
     (case best of (besti, bestj, bestsize) \<Rightarrow>
        alo \<le> besti \<and> (bestsize = 0 \<and> besti = alo \<or> besti + bestsize \<le> ahi)
        \<and> blo \<le> bestj \<and> (bestsize = 0 \<and> bestj = blo \<or> bestj + bestsize \<le> bhi))"

lemma extend_left_bounds:
  "in_window alo ahi blo bhi (besti, bestj, bestsize) \<Longrightarrow>
   in_window alo ahi blo bhi (extend_left want a b alo blo (besti, bestj, bestsize))"
proof (induction want a b alo blo "(besti, bestj, bestsize)" arbitrary: besti bestj bestsize
    rule: extend_left.induct)
  case (1 want a b alo blo besti bestj bestsize)
  show ?case
  proof (cases "besti > alo \<and> bestj > blo \<and> want (b ! (bestj - 1)) \<and> a ! (besti - 1) = b ! (bestj - 1)")
    case True
    have eq: "extend_left want a b alo blo (besti, bestj, bestsize)
        = extend_left want a b alo blo (besti - 1, bestj - 1, bestsize + 1)"
      by (subst extend_left.simps) (simp only: True if_True simp_thms)
    have "alo \<le> besti - 1" "blo \<le> bestj - 1" using True by arith+
    moreover have "besti + bestsize \<le> ahi" "bestj + bestsize \<le> bhi"
      using "1.prems" True by (auto simp: in_window_def)
    then have "besti - 1 + (bestsize + 1) \<le> ahi" "bestj - 1 + (bestsize + 1) \<le> bhi"
      using True by arith+
    ultimately have "in_window alo ahi blo bhi (besti - 1, bestj - 1, bestsize + 1)"
      by (simp add: in_window_def)
    from "1.hyps"[OF True this] show ?thesis unfolding eq .
  next
    case False
    have "extend_left want a b alo blo (besti, bestj, bestsize) = (besti, bestj, bestsize)"
      by (subst extend_left.simps) (simp only: False if_False)
    then show ?thesis using "1.prems" by (simp only:)
  qed
qed

lemma extend_right_bounds:
  "in_window alo ahi blo bhi (besti, bestj, bestsize) \<Longrightarrow>
   in_window alo ahi blo bhi (extend_right want a b ahi bhi (besti, bestj, bestsize))"
proof (induction want a b ahi bhi "(besti, bestj, bestsize)" arbitrary: besti bestj bestsize
    rule: extend_right.induct)
  case (1 want a b ahi bhi besti bestj bestsize)
  show ?case
  proof (cases "besti + bestsize < ahi \<and> bestj + bestsize < bhi \<and> want (b ! (bestj + bestsize))
         \<and> a ! (besti + bestsize) = b ! (bestj + bestsize)")
    case True
    have eq: "extend_right want a b ahi bhi (besti, bestj, bestsize)
        = extend_right want a b ahi bhi (besti, bestj, bestsize + 1)"
      by (subst extend_right.simps) (simp only: True if_True simp_thms)
    have "alo \<le> besti" "blo \<le> bestj" using "1.prems" by (simp_all add: in_window_def)
    moreover have "besti + (bestsize + 1) \<le> ahi" "bestj + (bestsize + 1) \<le> bhi"
      using True by arith+
    ultimately have "in_window alo ahi blo bhi (besti, bestj, bestsize + 1)"
      by (simp add: in_window_def)
    from "1.hyps"[OF True this] show ?thesis unfolding eq .
  next
    case False
    have "extend_right want a b ahi bhi (besti, bestj, bestsize) = (besti, bestj, bestsize)"
      by (subst extend_right.simps) (simp only: False if_False)
    then show ?thesis using "1.prems" by (simp only:)
  qed
qed

lemma find_longest_match_in_window:
  "in_window alo ahi blo bhi (find_longest_match a b alo ahi blo bhi)"
proof -
  obtain i0 j0 k0 where r0: "flm_rows a b blo bhi [alo..<ahi] (Map.empty, alo, blo, 0) = (i0, j0, k0)"
    by (metis prod_cases3)
  have e: "\<forall>j v. Map.empty j = Some v \<longrightarrow> v + alo \<le> alo \<and> v + blo \<le> j + 1" by simp
  have z1: "(0::nat) = 0 \<and> alo = alo \<or> alo + 0 \<le> ahi" by simp
  have z2: "(0::nat) = 0 \<and> blo = blo \<or> blo + 0 \<le> bhi" by simp
  have "alo \<le> i0 \<and> (k0 = 0 \<and> i0 = alo \<or> i0 + k0 \<le> ahi)
      \<and> blo \<le> j0 \<and> (k0 = 0 \<and> j0 = blo \<or> j0 + k0 \<le> bhi)"
    by (rule flm_rows_bounds[OF e order_refl order_refl z1 order_refl z2 r0])
  then have w0: "in_window alo ahi blo bhi (i0, j0, k0)"
    by (simp add: in_window_def)
  obtain i1 j1 k1 where r1: "extend_left (\<lambda>x. \<not> isbjunk x) a b alo blo (i0, j0, k0) = (i1, j1, k1)"
    by (metis prod_cases3)
  have w1: "in_window alo ahi blo bhi (i1, j1, k1)"
    using extend_left_bounds[OF w0, of "\<lambda>x. \<not> isbjunk x" a b] r1 by simp
  obtain i2 j2 k2 where r2: "extend_right (\<lambda>x. \<not> isbjunk x) a b ahi bhi (i1, j1, k1) = (i2, j2, k2)"
    by (metis prod_cases3)
  have w2: "in_window alo ahi blo bhi (i2, j2, k2)"
    using extend_right_bounds[OF w1, of "\<lambda>x. \<not> isbjunk x" a b] r2 by simp
  obtain i3 j3 k3 where r3: "extend_left isbjunk a b alo blo (i2, j2, k2) = (i3, j3, k3)"
    by (metis prod_cases3)
  have w3: "in_window alo ahi blo bhi (i3, j3, k3)"
    using extend_left_bounds[OF w2, of isbjunk a b] r3 by simp
  have w4: "in_window alo ahi blo bhi (extend_right isbjunk a b ahi bhi (i3, j3, k3))"
    by (rule extend_right_bounds[OF w3])
  have "find_longest_match a b alo ahi blo bhi = extend_right isbjunk a b ahi bhi (i3, j3, k3)"
    by (simp add: find_longest_match_def r0 r1 r2 r3)
  with w4 show ?thesis by simp
qed

lemma find_longest_match_bounds:
  assumes "find_longest_match a b alo ahi blo bhi = (i, j, k)" and "k \<noteq> 0"
  shows "alo \<le> i \<and> i + k \<le> ahi \<and> blo \<le> j \<and> j + k \<le> bhi"
proof -
  have "in_window alo ahi blo bhi (i, j, k)"
    using find_longest_match_in_window[of alo ahi blo bhi a b] assms(1) by simp
  with assms(2) show ?thesis by (simp add: in_window_def)
qed

text \<open>
  \<open>get_matching_blocks\<close>, the loop \<open>while queue\<close>.  \<open>queue.pop()\<close> takes the element
  appended last, so the head of the list is the end of Python's queue.
\<close>

function mb_loop :: "'a list \<Rightarrow> 'a list \<Rightarrow> (nat \<times> nat \<times> nat \<times> nat) list \<Rightarrow> match list \<Rightarrow> match list" where
  "mb_loop a b [] matching_blocks = matching_blocks"
| "mb_loop a b ((alo, ahi, blo, bhi) # queue) matching_blocks =
     (case find_longest_match a b alo ahi blo bhi of (i, j, k) \<Rightarrow>
        if k \<noteq> 0
        then mb_loop a b
               ((if i + k < ahi \<and> j + k < bhi then [(i + k, ahi, j + k, bhi)] else [])
                  @ (if alo < i \<and> blo < j then [(alo, i, blo, j)] else []) @ queue)
               (matching_blocks @ [(i, j, k)])
        else mb_loop a b queue matching_blocks)"
  by pat_completeness auto
termination
proof (relation "measure (\<lambda>(a, b, queue, blocks). \<Sum>(alo, ahi, blo, bhi) \<leftarrow> queue. 2 * (ahi - alo) + 1)", goal_cases)
  case 1
  show ?case by simp
next
  case (2 a b alo ahi blo bhi queue matching_blocks i y j k)
  then have "find_longest_match a b alo ahi blo bhi = (i, j, k)" by simp
  from find_longest_match_bounds[OF this] 2 have "alo \<le> i \<and> i + k \<le> ahi" "k > 0" by auto
  then show ?case by auto
next
  case 3
  then show ?case by simp
qed


text \<open>
  The rest of \<open>get_matching_blocks\<close>: the blocks sorted, adjacent blocks merged, and the
  sentinel \<open>(la, lb, 0)\<close> appended.
\<close>

fun collapse :: "match \<Rightarrow> match list \<Rightarrow> match list" where
  "collapse (i1, j1, k1) [] = (if k1 \<noteq> 0 then [(i1, j1, k1)] else [])"
| "collapse (i1, j1, k1) ((i2, j2, k2) # rest) =
     (if i1 + k1 = i2 \<and> j1 + k1 = j2 then collapse (i1, j1, k1 + k2) rest
      else (if k1 \<noteq> 0 then [(i1, j1, k1)] else []) @ collapse (i2, j2, k2) rest)"

definition get_matching_blocks :: "'a list \<Rightarrow> 'a list \<Rightarrow> match list" where
  "get_matching_blocks a b =
     collapse (0, 0, 0) (sort (mb_loop a b [(0, length a, 0, length b)] []))
       @ [(length a, length b, 0)]"

text \<open>
  \<open>ratio\<close> is \<open>2.0 * matches / length\<close>, and 1.0 when both sequences are empty.  It is
  modelled as the exact quotient.  Python's double is that quotient rounded to nearest;
  rounding is monotone, and two distinct quotients with denominators below \<open>2^26\<close>, or
  such a quotient and one of the thresholds 0.5, 0.95 and 0.99, never round to the same
  double, so every comparison the script makes has the outcome of the exact comparison.
\<close>

definition calculate_ratio :: "nat \<Rightarrow> nat \<Rightarrow> rat" where
  "calculate_ratio matches len = (if len \<noteq> 0 then 2 * of_nat matches / of_nat len else 1)"

definition ratio :: "'a list \<Rightarrow> 'a list \<Rightarrow> rat" where
  "ratio a b =
     calculate_ratio (sum_list (map (\<lambda>(i, j, k). k) (get_matching_blocks a b)))
       (length a + length b)"

text \<open>\<open>get_opcodes\<close>: the loop over the matching blocks, with \<open>i\<close> and \<open>j\<close> as state.\<close>

type_synonym opcode = "opcode_tag \<times> nat \<times> nat \<times> nat \<times> nat"

fun opcodes_loop :: "nat \<Rightarrow> nat \<Rightarrow> match list \<Rightarrow> opcode list" where
  "opcodes_loop i j [] = []"
| "opcodes_loop i j ((ai, bj, sz) # rest) =
     (if i < ai \<and> j < bj then [(Replace, i, ai, j, bj)]
      else if i < ai then [(Delete, i, ai, j, bj)]
      else if j < bj then [(Insert, i, ai, j, bj)]
      else [])
     @ (if sz \<noteq> 0 then [(Equal, ai, ai + sz, bj, bj + sz)] else [])
     @ opcodes_loop (ai + sz) (bj + sz) rest"

definition get_opcodes :: "'a list \<Rightarrow> 'a list \<Rightarrow> opcode list" where
  "get_opcodes a b = opcodes_loop 0 0 (get_matching_blocks a b)"

section \<open>Regular expressions, as Python's \<open>re\<close> matches them\<close>

text \<open>
  The patterns of the script use literals, character classes, repeated character
  classes (greedy or lazy), alternation, sequence and capturing groups, and nothing that
  looks behind the position of the match.  \<open>rx_match r s\<close> lists every way \<open>r\<close> matches
  at the start of \<open>s\<close>, in the order in which Python's backtracking matcher tries them;
  each way is the list of captured groups and the text left after the match.  Python
  takes the first.
\<close>

datatype rx =
    Lit string
  | One "char \<Rightarrow> bool"
  | Rep "char \<Rightarrow> bool" nat "nat option" bool
  | Alt rx rx
  | Cat rx rx
  | Grp rx

text \<open>
  \<open>Rep P lo hi greedy\<close> is the class \<open>P\<close> repeated \<open>lo\<close> times or more, and \<open>hi\<close> times
  at most when \<open>hi\<close> is given: the longest repetition first when greedy (\<open>*\<close>, \<open>+\<close>,
  \<open>{m,n}\<close>), the shortest first when lazy (\<open>*?\<close>).
\<close>

definition rep_counts :: "nat \<Rightarrow> nat option \<Rightarrow> bool \<Rightarrow> nat \<Rightarrow> nat list" where
  "rep_counts lo hi greedy avail =
     (let top = (case hi of None \<Rightarrow> avail | Some h \<Rightarrow> min h avail);
          counts = [lo..<Suc top]
      in if greedy then rev counts else counts)"

fun rx_match :: "rx \<Rightarrow> string \<Rightarrow> (string list \<times> string) list" where
  "rx_match (Lit l) s = (if take (length l) s = l then [([], drop (length l) s)] else [])"
| "rx_match (One P) s = (case s of [] \<Rightarrow> [] | c # cs \<Rightarrow> if P c then [([], cs)] else [])"
| "rx_match (Rep P lo hi greedy) s =
     map (\<lambda>k. ([], drop k s)) (rep_counts lo hi greedy (length (takeWhile P s)))"
| "rx_match (Alt r1 r2) s = rx_match r1 s @ rx_match r2 s"
| "rx_match (Cat r1 r2) s =
     concat (map (\<lambda>(g1, s1). map (\<lambda>(g2, s2). (g1 @ g2, s2)) (rx_match r2 s1)) (rx_match r1 s))"
| "rx_match (Grp r) s =
     map (\<lambda>(g, s'). (take (length s - length s') s # g, s')) (rx_match r s)"

text \<open>Sequences and alternations of several parts.\<close>

fun seq :: "rx list \<Rightarrow> rx" where
  "seq [] = Lit []"
| "seq [r] = r"
| "seq (r # rs) = Cat r (seq rs)"

fun alts :: "rx list \<Rightarrow> rx" where
  "alts [] = One (\<lambda>c. False)"
| "alts [r] = r"
| "alts (r # rs) = Alt r (alts rs)"

abbreviation star :: "(char \<Rightarrow> bool) \<Rightarrow> rx" where
  "star P \<equiv> Rep P 0 None True"

abbreviation plus :: "(char \<Rightarrow> bool) \<Rightarrow> rx" where
  "plus P \<equiv> Rep P 1 None True"

abbreviation lazy_star :: "(char \<Rightarrow> bool) \<Rightarrow> rx" where
  "lazy_star P \<equiv> Rep P 0 None False"

abbreviation any_char :: "char \<Rightarrow> bool" where
  "any_char \<equiv> (\<lambda>c. True)"

abbreviation not_char :: "char \<Rightarrow> char \<Rightarrow> bool" where
  "not_char d \<equiv> (\<lambda>c. c \<noteq> d)"

text \<open>
  A match: the text before it, the matched text, the groups, the text after it.
  \<open>rx_search\<close> is \<open>re.search\<close>: the first position with a match.
\<close>

type_synonym rx_found = "string \<times> string \<times> string list \<times> string"

fun rx_search :: "rx \<Rightarrow> string \<Rightarrow> rx_found option" where
  "rx_search r [] =
     (case rx_match r [] of [] \<Rightarrow> None | (g, rest) # _ \<Rightarrow> Some ([], [], g, rest))"
| "rx_search r (c # cs) =
     (case rx_match r (c # cs) of
        (g, rest) # _ \<Rightarrow> Some ([], take (length (c # cs) - length rest) (c # cs), g, rest)
      | [] \<Rightarrow> (case rx_search r cs of
                 None \<Rightarrow> None
               | Some (pre, m, g, rest) \<Rightarrow> Some (c # pre, m, g, rest)))"

lemma rx_match_suffix: "(g, s') \<in> set (rx_match r s) \<Longrightarrow> \<exists>m. s = m @ s'"
proof (induction r arbitrary: g s s')
  case (Lit l)
  then have "s' = drop (length l) s" by (auto split: if_splits)
  then show ?case by (metis append_take_drop_id)
next
  case (One P)
  then show ?case by (auto split: list.splits if_splits)
next
  case (Rep P lo hi gr)
  then obtain k where "s' = drop k s" by auto
  then show ?case by (metis append_take_drop_id)
next
  case (Alt r1 r2)
  then show ?case by auto
next
  case (Cat r1 r2)
  from Cat.prems obtain g1 s1 g2 where "(g1, s1) \<in> set (rx_match r1 s)" "(g2, s') \<in> set (rx_match r2 s1)"
    by auto
  with Cat.IH show ?case by (metis append.assoc)
next
  case (Grp r)
  then show ?case by auto
qed

lemma rx_search_parts: "rx_search r s = Some (pre, m, g, rest) \<Longrightarrow> s = pre @ m @ rest"
proof (induction s arbitrary: pre)
  case Nil
  then obtain g' rest' where "(g', rest') \<in> set (rx_match r [])" "rest = rest'" "m = []" "pre = []"
    by (auto split: list.splits)
  then show ?case using rx_match_suffix by fastforce
next
  case (Cons c cs)
  show ?case
  proof (cases "rx_match r (c # cs)")
    case Nil
    with Cons.prems obtain pre' where "rx_search r cs = Some (pre', m, g, rest)" "pre = c # pre'"
      by (auto split: option.splits)
    with Cons.IH show ?thesis by simp
  next
    case (Cons a list)
    obtain g' rest' where a: "a = (g', rest')" by (cases a)
    with Cons Cons.prems have eq: "pre = []" "m = take (length (c # cs) - length rest) (c # cs)" "rest = rest'"
      by auto
    have "(g', rest') \<in> set (rx_match r (c # cs))" using Cons a by simp
    then obtain m' where "c # cs = m' @ rest'" using rx_match_suffix by blast
    then show ?thesis using eq by simp
  qed
qed

text \<open>
  \<open>re.findall\<close> and \<open>re.sub\<close> scan from left to right and continue after each match.
  No pattern of the script matches the empty text; the scan stops if one ever did.
\<close>

function findall :: "rx \<Rightarrow> string \<Rightarrow> string list" where
  "findall r s =
     (case rx_search r s of
        None \<Rightarrow> []
      | Some (pre, m, g, rest) \<Rightarrow> if m = [] then [] else m # findall r rest)"
  by pat_completeness auto
termination
proof (relation "measure (\<lambda>(r, s). length s)", goal_cases)
  case 1
  show ?case by simp
next
  case (2 r s x2 pre y m z g rest)
  then have "rx_search r s = Some (pre, m, g, rest)" by simp
  from rx_search_parts[OF this] 2 show ?case by simp
qed

text \<open>\<open>re.sub\<close> with a function of the matched text and the groups as the replacement.\<close>

function rx_sub :: "rx \<Rightarrow> (string \<Rightarrow> string list \<Rightarrow> string) \<Rightarrow> string \<Rightarrow> string" where
  "rx_sub r repl s =
     (case rx_search r s of
        None \<Rightarrow> s
      | Some (pre, m, g, rest) \<Rightarrow>
          if m = [] then s else pre @ repl m g @ rx_sub r repl rest)"
  by pat_completeness auto
termination
proof (relation "measure (\<lambda>(r, repl, s). length s)", goal_cases)
  case 1
  show ?case by simp
next
  case (2 r repl s x2 pre y m z g rest)
  then have "rx_search r s = Some (pre, m, g, rest)" by simp
  from rx_search_parts[OF this] 2 show ?case by simp
qed


section \<open>\<open>html.unescape\<close>\<close>

text \<open>
  CPython's \<open>html.unescape\<close> returns its argument when it holds no \<open>&\<close>, and otherwise
  replaces each match of the pattern
  \<open>&(#[0-9]+;?|#[xX][0-9a-fA-F]+;?|[^\t\n\f <&#;]{1,32};?)\<close> by \<open>_replace_charref\<close>.
  The model covers the part of it that a \<open>char\<close> can hold.  \<open>html5_table\<close> is Python's
  table \<open>html.entities.html5\<close> restricted to the 265 names whose value consists of code
  points below 256.  A numeric reference is decoded as Python decodes it when the result
  is such a code point (or the empty text).  A reference whose value needs a code point
  of 256 or more (such as \<open>&mdash;\<close> or \<open>&#8364;\<close>) cannot be written in the model and
  is left as it stands.
\<close>

definition py_ord :: "char \<Rightarrow> nat" where
  "py_ord c = of_char c"

definition isdigit :: "char \<Rightarrow> bool" where
  "isdigit c = (48 \<le> py_ord c \<and> py_ord c \<le> 57)"

definition isoctdigit :: "char \<Rightarrow> bool" where
  "isoctdigit c = (48 \<le> py_ord c \<and> py_ord c \<le> 55)"

definition ishexdigit :: "char \<Rightarrow> bool" where
  "ishexdigit c = (isdigit c \<or> (97 \<le> py_ord c \<and> py_ord c \<le> 102) \<or> (65 \<le> py_ord c \<and> py_ord c \<le> 70))"

definition isasciiletter :: "char \<Rightarrow> bool" where
  "isasciiletter c = ((97 \<le> py_ord c \<and> py_ord c \<le> 122) \<or> (65 \<le> py_ord c \<and> py_ord c \<le> 90))"

definition digit_val :: "char \<Rightarrow> nat" where
  "digit_val c =
     (if isdigit c then py_ord c - 48
      else if 97 \<le> py_ord c then py_ord c - 87
      else py_ord c - 55)"

text \<open>\<open>int(digits, base)\<close> for a text of digits of that base.\<close>

definition int_of :: "nat \<Rightarrow> string \<Rightarrow> nat" where
  "int_of base ds = foldl (\<lambda>n c. n * base + digit_val c) 0 ds"

definition CHARREF :: rx where
  "CHARREF = seq [Lit ''&'', Grp (alts [
     seq [Lit ''#'', plus isdigit, Rep (\<lambda>c. c = CHR '';'') 0 (Some 1) True],
     seq [Lit ''#'', One (\<lambda>c. c = CHR ''x'' \<or> c = CHR ''X''), plus ishexdigit,
          Rep (\<lambda>c. c = CHR '';'') 0 (Some 1) True],
     seq [Rep (\<lambda>c. c \<notin> {CHR 0x09, CHR 0x0A, CHR 0x0C, CHR '' '', CHR ''<'', CHR ''&'', CHR ''#'', CHR '';''})
            1 (Some 32) True,
          Rep (\<lambda>c. c = CHR '';'') 0 (Some 1) True]])]"

definition html5_table :: "(string \<times> string) list" where
  "html5_table =
     [(''amp;'', [CHR 0x26]), (''amp'', [CHR 0x26]), (''lt;'', [CHR 0x3C]),
      (''lt'', [CHR 0x3C]), (''gt;'', [CHR 0x3E]), (''gt'', [CHR 0x3E]),
      (''quot;'', [CHR 0x22]), (''quot'', [CHR 0x22]), (''apos;'', [CHR 0x27]),
      (''nbsp;'', [CHR 0xA0]), (''nbsp'', [CHR 0xA0]), (''AElig'', [CHR 0xC6]),
      (''AElig;'', [CHR 0xC6]), (''AMP'', [CHR 0x26]), (''AMP;'', [CHR 0x26]),
      (''Aacute'', [CHR 0xC1]), (''Aacute;'', [CHR 0xC1]), (''Acirc'', [CHR 0xC2]),
      (''Acirc;'', [CHR 0xC2]), (''Agrave'', [CHR 0xC0]), (''Agrave;'', [CHR 0xC0]),
      (''Aring'', [CHR 0xC5]), (''Aring;'', [CHR 0xC5]), (''Atilde'', [CHR 0xC3]),
      (''Atilde;'', [CHR 0xC3]), (''Auml'', [CHR 0xC4]), (''Auml;'', [CHR 0xC4]),
      (''COPY'', [CHR 0xA9]), (''COPY;'', [CHR 0xA9]), (''Ccedil'', [CHR 0xC7]),
      (''Ccedil;'', [CHR 0xC7]), (''Cedilla;'', [CHR 0xB8]), (''CenterDot;'', [CHR 0xB7]),
      (''DiacriticalAcute;'', [CHR 0xB4]), (''DiacriticalGrave;'', [CHR 0x60]),
      (''Dot;'', [CHR 0xA8]), (''DoubleDot;'', [CHR 0xA8]), (''ETH'', [CHR 0xD0]),
      (''ETH;'', [CHR 0xD0]), (''Eacute'', [CHR 0xC9]), (''Eacute;'', [CHR 0xC9]),
      (''Ecirc'', [CHR 0xCA]), (''Ecirc;'', [CHR 0xCA]), (''Egrave'', [CHR 0xC8]),
      (''Egrave;'', [CHR 0xC8]), (''Euml'', [CHR 0xCB]), (''Euml;'', [CHR 0xCB]),
      (''GT'', [CHR 0x3E]), (''GT;'', [CHR 0x3E]), (''Hat;'', [CHR 0x5E]),
      (''Iacute'', [CHR 0xCD]), (''Iacute;'', [CHR 0xCD]), (''Icirc'', [CHR 0xCE]),
      (''Icirc;'', [CHR 0xCE]), (''Igrave'', [CHR 0xCC]), (''Igrave;'', [CHR 0xCC]),
      (''Iuml'', [CHR 0xCF]), (''Iuml;'', [CHR 0xCF]), (''LT'', [CHR 0x3C]),
      (''LT;'', [CHR 0x3C]), (''NewLine;'', [CHR 0x0A]), (''NonBreakingSpace;'', [CHR 0xA0]),
      (''Ntilde'', [CHR 0xD1]), (''Ntilde;'', [CHR 0xD1]), (''Oacute'', [CHR 0xD3]),
      (''Oacute;'', [CHR 0xD3]), (''Ocirc'', [CHR 0xD4]), (''Ocirc;'', [CHR 0xD4]),
      (''Ograve'', [CHR 0xD2]), (''Ograve;'', [CHR 0xD2]), (''Oslash'', [CHR 0xD8]),
      (''Oslash;'', [CHR 0xD8]), (''Otilde'', [CHR 0xD5]), (''Otilde;'', [CHR 0xD5]),
      (''Ouml'', [CHR 0xD6]), (''Ouml;'', [CHR 0xD6]), (''PlusMinus;'', [CHR 0xB1]),
      (''QUOT'', [CHR 0x22]), (''QUOT;'', [CHR 0x22]), (''REG'', [CHR 0xAE]),
      (''REG;'', [CHR 0xAE]), (''THORN'', [CHR 0xDE]), (''THORN;'', [CHR 0xDE]),
      (''Tab;'', [CHR 0x09]), (''Uacute'', [CHR 0xDA]), (''Uacute;'', [CHR 0xDA]),
      (''Ucirc'', [CHR 0xDB]), (''Ucirc;'', [CHR 0xDB]), (''Ugrave'', [CHR 0xD9]),
      (''Ugrave;'', [CHR 0xD9]), (''UnderBar;'', [CHR 0x5F]), (''Uuml'', [CHR 0xDC]),
      (''Uuml;'', [CHR 0xDC]), (''VerticalLine;'', [CHR 0x7C]), (''Yacute'', [CHR 0xDD]),
      (''Yacute;'', [CHR 0xDD]), (''aacute'', [CHR 0xE1]), (''aacute;'', [CHR 0xE1]),
      (''acirc'', [CHR 0xE2]), (''acirc;'', [CHR 0xE2]), (''acute'', [CHR 0xB4]),
      (''acute;'', [CHR 0xB4]), (''aelig'', [CHR 0xE6]), (''aelig;'', [CHR 0xE6]),
      (''agrave'', [CHR 0xE0]), (''agrave;'', [CHR 0xE0]), (''angst;'', [CHR 0xC5]),
      (''aring'', [CHR 0xE5]), (''aring;'', [CHR 0xE5]), (''ast;'', [CHR 0x2A]),
      (''atilde'', [CHR 0xE3]), (''atilde;'', [CHR 0xE3]), (''auml'', [CHR 0xE4]),
      (''auml;'', [CHR 0xE4]), (''brvbar'', [CHR 0xA6]), (''brvbar;'', [CHR 0xA6]),
      (''bsol;'', [CHR 0x5C]), (''ccedil'', [CHR 0xE7]), (''ccedil;'', [CHR 0xE7]),
      (''cedil'', [CHR 0xB8]), (''cedil;'', [CHR 0xB8]), (''cent'', [CHR 0xA2]),
      (''cent;'', [CHR 0xA2]), (''centerdot;'', [CHR 0xB7]), (''circledR;'', [CHR 0xAE]),
      (''colon;'', [CHR 0x3A]), (''comma;'', [CHR 0x2C]), (''commat;'', [CHR 0x40]),
      (''copy'', [CHR 0xA9]), (''copy;'', [CHR 0xA9]), (''curren'', [CHR 0xA4]),
      (''curren;'', [CHR 0xA4]), (''deg'', [CHR 0xB0]), (''deg;'', [CHR 0xB0]),
      (''die;'', [CHR 0xA8]), (''div;'', [CHR 0xF7]), (''divide'', [CHR 0xF7]),
      (''divide;'', [CHR 0xF7]), (''dollar;'', [CHR 0x24]), (''eacute'', [CHR 0xE9]),
      (''eacute;'', [CHR 0xE9]), (''ecirc'', [CHR 0xEA]), (''ecirc;'', [CHR 0xEA]),
      (''egrave'', [CHR 0xE8]), (''egrave;'', [CHR 0xE8]), (''equals;'', [CHR 0x3D]),
      (''eth'', [CHR 0xF0]), (''eth;'', [CHR 0xF0]), (''euml'', [CHR 0xEB]),
      (''euml;'', [CHR 0xEB]), (''excl;'', [CHR 0x21]), (''fjlig;'', [CHR 0x66, CHR 0x6A]),
      (''frac12'', [CHR 0xBD]), (''frac12;'', [CHR 0xBD]), (''frac14'', [CHR 0xBC]),
      (''frac14;'', [CHR 0xBC]), (''frac34'', [CHR 0xBE]), (''frac34;'', [CHR 0xBE]),
      (''grave;'', [CHR 0x60]), (''half;'', [CHR 0xBD]), (''iacute'', [CHR 0xED]),
      (''iacute;'', [CHR 0xED]), (''icirc'', [CHR 0xEE]), (''icirc;'', [CHR 0xEE]),
      (''iexcl'', [CHR 0xA1]), (''iexcl;'', [CHR 0xA1]), (''igrave'', [CHR 0xEC]),
      (''igrave;'', [CHR 0xEC]), (''iquest'', [CHR 0xBF]), (''iquest;'', [CHR 0xBF]),
      (''iuml'', [CHR 0xEF]), (''iuml;'', [CHR 0xEF]), (''laquo'', [CHR 0xAB]),
      (''laquo;'', [CHR 0xAB]), (''lbrace;'', [CHR 0x7B]), (''lbrack;'', [CHR 0x5B]),
      (''lcub;'', [CHR 0x7B]), (''lowbar;'', [CHR 0x5F]), (''lpar;'', [CHR 0x28]),
      (''lsqb;'', [CHR 0x5B]), (''macr'', [CHR 0xAF]), (''macr;'', [CHR 0xAF]),
      (''micro'', [CHR 0xB5]), (''micro;'', [CHR 0xB5]), (''midast;'', [CHR 0x2A]),
      (''middot'', [CHR 0xB7]), (''middot;'', [CHR 0xB7]), (''not'', [CHR 0xAC]),
      (''not;'', [CHR 0xAC]), (''ntilde'', [CHR 0xF1]), (''ntilde;'', [CHR 0xF1]),
      (''num;'', [CHR 0x23]), (''oacute'', [CHR 0xF3]), (''oacute;'', [CHR 0xF3]),
      (''ocirc'', [CHR 0xF4]), (''ocirc;'', [CHR 0xF4]), (''ograve'', [CHR 0xF2]),
      (''ograve;'', [CHR 0xF2]), (''ordf'', [CHR 0xAA]), (''ordf;'', [CHR 0xAA]),
      (''ordm'', [CHR 0xBA]), (''ordm;'', [CHR 0xBA]), (''oslash'', [CHR 0xF8]),
      (''oslash;'', [CHR 0xF8]), (''otilde'', [CHR 0xF5]), (''otilde;'', [CHR 0xF5]),
      (''ouml'', [CHR 0xF6]), (''ouml;'', [CHR 0xF6]), (''para'', [CHR 0xB6]),
      (''para;'', [CHR 0xB6]), (''percnt;'', [CHR 0x25]), (''period;'', [CHR 0x2E]),
      (''plus;'', [CHR 0x2B]), (''plusmn'', [CHR 0xB1]), (''plusmn;'', [CHR 0xB1]),
      (''pm;'', [CHR 0xB1]), (''pound'', [CHR 0xA3]), (''pound;'', [CHR 0xA3]),
      (''quest;'', [CHR 0x3F]), (''raquo'', [CHR 0xBB]), (''raquo;'', [CHR 0xBB]),
      (''rbrace;'', [CHR 0x7D]), (''rbrack;'', [CHR 0x5D]), (''rcub;'', [CHR 0x7D]),
      (''reg'', [CHR 0xAE]), (''reg;'', [CHR 0xAE]), (''rpar;'', [CHR 0x29]),
      (''rsqb;'', [CHR 0x5D]), (''sect'', [CHR 0xA7]), (''sect;'', [CHR 0xA7]),
      (''semi;'', [CHR 0x3B]), (''shy'', [CHR 0xAD]), (''shy;'', [CHR 0xAD]),
      (''sol;'', [CHR 0x2F]), (''strns;'', [CHR 0xAF]), (''sup1'', [CHR 0xB9]),
      (''sup1;'', [CHR 0xB9]), (''sup2'', [CHR 0xB2]), (''sup2;'', [CHR 0xB2]),
      (''sup3'', [CHR 0xB3]), (''sup3;'', [CHR 0xB3]), (''szlig'', [CHR 0xDF]),
      (''szlig;'', [CHR 0xDF]), (''thorn'', [CHR 0xFE]), (''thorn;'', [CHR 0xFE]),
      (''times'', [CHR 0xD7]), (''times;'', [CHR 0xD7]), (''uacute'', [CHR 0xFA]),
      (''uacute;'', [CHR 0xFA]), (''ucirc'', [CHR 0xFB]), (''ucirc;'', [CHR 0xFB]),
      (''ugrave'', [CHR 0xF9]), (''ugrave;'', [CHR 0xF9]), (''uml'', [CHR 0xA8]),
      (''uml;'', [CHR 0xA8]), (''uuml'', [CHR 0xFC]), (''uuml;'', [CHR 0xFC]),
      (''verbar;'', [CHR 0x7C]), (''vert;'', [CHR 0x7C]), (''yacute'', [CHR 0xFD]),
      (''yacute;'', [CHR 0xFD]), (''yen'', [CHR 0xA5]), (''yen;'', [CHR 0xA5]),
      (''yuml'', [CHR 0xFF]), (''yuml;'', [CHR 0xFF])]"

text \<open>
  The search for the longest name that is a prefix of the reference:
  \<open>for x in range(len(s)-1, 1, -1)\<close>, here with the candidates \<open>xs\<close> in that order.
\<close>

fun longest_name :: "string \<Rightarrow> nat list \<Rightarrow> string" where
  "longest_name s [] = CHR ''&'' # s"
| "longest_name s (x # xs) =
     (case map_of html5_table (take x s) of
        Some v \<Rightarrow> v @ drop x s
      | None \<Rightarrow> longest_name s xs)"

definition rstrip_semicolon :: "string \<Rightarrow> string" where
  "rstrip_semicolon s = rev (dropWhile (\<lambda>c. c = CHR '';'') (rev s))"

definition replace_charref :: "string \<Rightarrow> string" where
  "replace_charref s =
     (if take 1 s = ''#'' then
        let num = (if take 1 (drop 1 s) = ''x'' \<or> take 1 (drop 1 s) = ''X''
                   then int_of 16 (rstrip_semicolon (drop 2 s))
                   else int_of 10 (rstrip_semicolon (drop 1 s)))
        in if num \<in> {9, 10, 12, 13} \<or> (32 \<le> num \<and> num \<le> 126) \<or> (160 \<le> num \<and> num \<le> 255)
              \<or> num \<in> {129, 141, 143, 144, 157}
           then [char_of num]
           else if (1 \<le> num \<and> num \<le> 8) \<or> num = 11 \<or> (14 \<le> num \<and> num \<le> 31) \<or> num = 127
           then []
           else CHR ''&'' # s
      else case map_of html5_table s of
             Some v \<Rightarrow> v
           | None \<Rightarrow> longest_name s (rev [2..<length s]))"

definition unescape :: "string \<Rightarrow> string" where
  "unescape s =
     (if CHR ''&'' \<notin> set s then s
      else rx_sub CHARREF (\<lambda>m g. case g of [] \<Rightarrow> m | s1 # _ \<Rightarrow> replace_charref s1) s)"

section \<open>The extractor\<close>

definition TAG :: rx where
  "TAG = seq [Lit ''<'', plus (not_char CHR ''>''), Lit ''>'']"

text \<open>\<open>extract_text_from_element\<close>: \<open>unescape(re.sub(r'<[^>]+>', '', element_html)).strip()\<close>.\<close>

definition extract_text_from_element :: "string \<Rightarrow> string" where
  "extract_text_from_element element_html =
     strip (unescape (rx_sub TAG (\<lambda>m g. []) element_html))"

text \<open>The words of a text: \<open>re.findall(r'\S+|\s+', text)\<close>.\<close>

definition WORDS :: rx where
  "WORDS = Alt (plus (\<lambda>c. \<not> isspace c)) (plus isspace)"

text \<open>The tokens of a markup fragment: \<open>re.findall(r'(<[^>]+>|[^<]+)', new_html)\<close>.\<close>

definition TOKEN :: rx where
  "TOKEN = Grp (Alt TAG (plus (not_char CHR ''<'')))"


section \<open>The word aligner and the annotator: \<open>highlight_html_diff\<close>\<close>

text \<open>
  The loop over \<open>get_opcodes()\<close>: a range for each \<open>replace\<close> and each \<open>insert\<close>, from
  \<open>len(''.join(new_words[:j1]))\<close> to \<open>len(''.join(new_words[:j2]))\<close>.
\<close>

fun changed_ranges_of :: "string list \<Rightarrow> opcode list \<Rightarrow> change_range list" where
  "changed_ranges_of new_words [] = []"
| "changed_ranges_of new_words ((tag, i1, i2, j1, j2) # ops) =
     (if tag = Replace \<or> tag = Insert
      then (length (concat (take j1 new_words)), length (concat (take j2 new_words)), tag)
             # changed_ranges_of new_words ops
      else changed_ranges_of new_words ops)"

text \<open>
  The loop over \<open>html_tokens\<close>, with \<open>text_pos\<close> as state: a tag is kept, a text token
  is highlighted at \<open>text_pos\<close>, which then advances by \<open>len(token)\<close>.
\<close>

fun annotate_tokens :: "change_range list \<Rightarrow> nat \<Rightarrow> string list \<Rightarrow> string list" where
  "annotate_tokens changed_ranges text_pos [] = []"
| "annotate_tokens changed_ranges text_pos (token # tokens) =
     (if take 1 token = ''<''
      then token # annotate_tokens changed_ranges text_pos tokens
      else apply_highlights_to_text token text_pos changed_ranges
             # annotate_tokens changed_ranges (text_pos + length token) tokens)"

definition highlight_html_diff :: "string \<Rightarrow> string \<Rightarrow> string" where
  "highlight_html_diff old_html new_html =
     (let old_text = extract_text_from_element (''<div>'' @ old_html @ ''</div>'');
          new_text = extract_text_from_element (''<div>'' @ new_html @ ''</div>'')
      in if old_text = [] \<or> new_text = [] then new_html
         else
           let old_words = findall WORDS old_text;
               new_words = findall WORDS new_text;
               changed_ranges = changed_ranges_of new_words (get_opcodes old_words new_words)
           in if changed_ranges = [] then new_html
              else concat (annotate_tokens changed_ranges 0 (findall TOKEN new_html)))"

section \<open>The orchestrator\<close>

text \<open>\<open>extract_main_content\<close>: the two searches, with \<open>re.DOTALL\<close>, and the fallback.\<close>

definition MAIN :: rx where
  "MAIN = seq [Lit ''<main'', star (not_char CHR ''>''), Lit ''>'',
               Grp (lazy_star any_char), Lit ''</main>'']"

definition DIV_CONTENT :: rx where
  "DIV_CONTENT = seq [Lit ''<div'', star (not_char CHR ''>''), Lit ''class=\"'',
                      star (not_char CHR 0x22), Lit ''content'', star (not_char CHR 0x22),
                      Lit ''\"'', star (not_char CHR ''>''), Lit ''>'',
                      Grp (lazy_star any_char), Lit ''</div>'']"

text \<open>\<open>m.group(n)\<close>, for a group that the pattern has.\<close>

definition group :: "string list \<Rightarrow> nat \<Rightarrow> string" where
  "group g n = (if 1 \<le> n \<and> n \<le> length g then g ! (n - 1) else [])"

definition extract_main_content :: "string \<Rightarrow> string" where
  "extract_main_content html =
     (case rx_search MAIN html of
        Some (pre, m, g, rest) \<Rightarrow> group g 1
      | None \<Rightarrow>
          (case rx_search DIV_CONTENT html of
             Some (pre, m, g, rest) \<Rightarrow> group g 1
           | None \<Rightarrow> html))"

text \<open>\<open>normalize_html\<close>: runs of whitespace to one blank, comments removed, stripped.\<close>

definition COMMENT :: rx where
  "COMMENT = seq [Lit ''<!--'', lazy_star any_char, Lit ''-->'']"

definition normalize_html :: "string \<Rightarrow> string" where
  "normalize_html html =
     strip (rx_sub COMMENT (\<lambda>m g. []) (rx_sub (plus isspace) (\<lambda>m g. '' '') html))"

text \<open>
  \<open>find_changed_sections\<close> returns the diff lines and the similarity; the model keeps the
  similarity, which no later line of the function changes.  \<open>not old_html\<close> holds for a
  document that is absent and for one that is empty.
\<close>

definition find_changed_sections :: "string option \<Rightarrow> string \<Rightarrow> rat" where
  "find_changed_sections old_html new_html =
     (case old_html of
        None \<Rightarrow> 0
      | Some old \<Rightarrow>
          if old = [] then 0
          else ratio (normalize_html (extract_main_content old))
                     (normalize_html (extract_main_content new_html)))"


subsection \<open>\<open>re.sub(re.escape(new_elem), highlighted_elem, html, count=1)\<close>\<close>

text \<open>
  The pattern is escaped, so it matches the element literally.  The replacement is a
  template: when it holds a backslash, \<open>re\<close> parses it (\<open>parse_template\<close> in CPython's
  \<open>re/_parser.py\<close>, here as of Python 3.12) before it searches, and raises on a bad
  escape.  The pattern has no group, so only group 0, the whole match, can be referred
  to.
\<close>

datatype py_error = ReError | IndexError

datatype template_part = Chars string | WholeMatch

text \<open>
  \<open>str.isidentifier\<close> on code points below 256: the first character is a letter or the
  underscore, the others are letters, digits, the underscore or the middle dot (183).
  The letters are the ASCII letters and 170, 181, 186, 192..214, 216..246, 248..255.
\<close>

definition isletter :: "char \<Rightarrow> bool" where
  "isletter c =
     (isasciiletter c \<or> py_ord c \<in> {170, 181, 186} \<or> (192 \<le> py_ord c \<and> py_ord c \<le> 214)
      \<or> (216 \<le> py_ord c \<and> py_ord c \<le> 246) \<or> (248 \<le> py_ord c \<and> py_ord c \<le> 255))"

definition isidentifier :: "string \<Rightarrow> bool" where
  "isidentifier name =
     (name \<noteq> [] \<and> (isletter (hd name) \<or> hd name = CHR ''_'')
      \<and> list_all (\<lambda>c. isletter c \<or> isdigit c \<or> c = CHR ''_'' \<or> py_ord c = 183) name)"

definition ESCAPES :: "(char \<times> char) list" where
  "ESCAPES = [(CHR ''a'', CHR 0x07), (CHR ''b'', CHR 0x08), (CHR ''f'', CHR 0x0C),
              (CHR ''n'', CHR 0x0A), (CHR ''r'', CHR 0x0D), (CHR ''t'', CHR 0x09),
              (CHR ''v'', CHR 0x0B), (CHR 0x5C, CHR 0x5C)]"

text \<open>
  One step of the parser: the part read at the head of the template and the template
  left.  \<open>template_escape\<close> reads what follows a backslash.
\<close>

definition template_escape :: "char \<Rightarrow> string \<Rightarrow> py_error + template_part \<times> string" where
  "template_escape c rest =
     (if c = CHR ''g'' then
        (if take 1 rest \<noteq> ''<'' then Inl ReError
         else let name = takeWhile (not_char CHR ''>'') (drop 1 rest);
                  after = dropWhile (not_char CHR ''>'') (drop 1 rest)
              in if after = [] then Inl ReError
                 else if name = [] then Inl ReError
                 else if isidentifier name then Inl IndexError
                 else if \<not> list_all isdigit name then Inl ReError
                 else if int_of 10 name > 0 then Inl ReError
                 else Inr (WholeMatch, drop 1 after))
      else if c = CHR ''0'' then
        (let ds = takeWhile isoctdigit (take 2 rest)
         in Inr (Chars [char_of (int_of 8 ds mod 256)], drop (length ds) rest))
      else if isdigit c then
        (if rest \<noteq> [] \<and> isdigit (hd rest) then
           (if isoctdigit c \<and> isoctdigit (hd rest) \<and> take 1 (drop 1 rest) \<noteq> [] \<and> isoctdigit (hd (drop 1 rest))
            then let v = int_of 8 (c # take 2 rest)
                 in if v > 255 then Inl ReError else Inr (Chars [char_of v], drop 2 rest)
            else Inl ReError)
         else Inl ReError)
      else case map_of ESCAPES c of
             Some e \<Rightarrow> Inr (Chars [e], rest)
           | None \<Rightarrow> if isasciiletter c then Inl ReError else Inr (Chars [CHR 0x5C, c], rest))"

definition template_step :: "char \<Rightarrow> string \<Rightarrow> py_error + template_part \<times> string" where
  "template_step c cs =
     (if c \<noteq> CHR 0x5C then Inr (Chars [c], cs)
      else case cs of [] \<Rightarrow> Inl ReError | d # ds \<Rightarrow> template_escape d ds)"

lemma length_dropWhile_drop_le: "length (dropWhile P (drop n xs)) - m \<le> length xs"
proof -
  have "length (dropWhile P (drop n xs)) \<le> length (drop n xs)"
    by (rule length_dropWhile_le)
  then show ?thesis by simp
qed

lemma template_escape_shorter:
  "template_escape c rest = Inr (part, rest') \<Longrightarrow> length rest' \<le> length rest"
  by (auto simp: template_escape_def Let_def length_dropWhile_drop_le
      split: if_splits option.splits)

lemma template_step_shorter:
  "template_step c cs = Inr (part, rest') \<Longrightarrow> length rest' < length (c # cs)"
  by (auto simp: template_step_def split: if_splits list.splits
      dest!: template_escape_shorter)

function parse_template :: "string \<Rightarrow> py_error + template_part list" where
  "parse_template [] = Inr []"
| "parse_template (c # cs) =
     (case template_step c cs of
        Inl e \<Rightarrow> Inl e
      | Inr (part, rest) \<Rightarrow>
          (case parse_template rest of
             Inl e \<Rightarrow> Inl e
           | Inr parts \<Rightarrow> Inr (part # parts)))"
  by pat_completeness auto
termination
proof (relation "measure length", goal_cases)
  case 1
  show ?case by simp
next
  case (2 c cs x part rest)
  then have "template_step c cs = Inr (part, rest)" by simp
  from template_step_shorter[OF this] show ?case by simp
qed

fun expand_template :: "template_part list \<Rightarrow> string \<Rightarrow> string" where
  "expand_template [] m = []"
| "expand_template (Chars t # parts) m = t @ expand_template parts m"
| "expand_template (WholeMatch # parts) m = m @ expand_template parts m"

definition sub_escaped_once :: "string \<Rightarrow> string \<Rightarrow> string \<Rightarrow> py_error + string" where
  "sub_escaped_once elem template html =
     (case parse_template template of
        Inl e \<Rightarrow> Inl e
      | Inr parts \<Rightarrow>
          (case rx_search (Lit elem) html of
             None \<Rightarrow> Inr html
           | Some (pre, m, g, rest) \<Rightarrow> Inr (pre @ expand_template parts m @ rest)))"



subsection \<open>The unit matcher and the splice: \<open>highlight_changed_elements\<close>\<close>

definition SIMILARITY_THRESHOLD_MIN :: rat where
  "SIMILARITY_THRESHOLD_MIN = 1 / 2"

definition SIMILARITY_THRESHOLD_MAX :: rat where
  "SIMILARITY_THRESHOLD_MAX = 99 / 100"

text \<open>
  \<open>element_pattern\<close>, with \<open>re.DOTALL\<close>:
  \<open>(<(?:p|h[1-6]|li|blockquote)[^>]*>.*?</(?:p|h[1-6]|li|blockquote)>)\<close>.
\<close>

definition COMPARABLE_ELEMENTS :: rx where
  "COMPARABLE_ELEMENTS =
     alts [Lit ''p'', Cat (Lit ''h'') (One (\<lambda>c. c \<in> set ''123456'')), Lit ''li'',
           Lit ''blockquote'']"

definition element_pattern :: rx where
  "element_pattern =
     Grp (seq [Lit ''<'', COMPARABLE_ELEMENTS, star (not_char CHR ''>''), Lit ''>'',
               lazy_star any_char, Lit ''</'', COMPARABLE_ELEMENTS, Lit ''>''])"

text \<open>The pattern of \<open>tag_match\<close>, with \<open>re.DOTALL\<close>: \<open>(<[^>]+>)(.*)(</[^>]+>)\<close>.\<close>

definition TAG_MATCH :: rx where
  "TAG_MATCH =
     seq [Grp TAG, Grp (star any_char),
          Grp (seq [Lit ''</'', plus (not_char CHR ''>''), Lit ''>''])]"

text \<open>\<open>re.match\<close>: the first way the pattern matches at the start, as its groups.\<close>

definition rx_match_groups :: "rx \<Rightarrow> string \<Rightarrow> string list option" where
  "rx_match_groups r s = (case rx_match r s of [] \<Rightarrow> None | (g, rest) # _ \<Rightarrow> Some g)"

text \<open>\<open>old_elem_list\<close>: the old elements with a text that is not empty, with their text.\<close>

definition old_elem_list_of :: "string list \<Rightarrow> (string \<times> string) list" where
  "old_elem_list_of old_elements =
     filter (\<lambda>(text, elem). text \<noteq> [])
       (map (\<lambda>elem. (extract_text_from_element elem, elem)) old_elements)"

text \<open>
  The inner loop \<open>for idx, (old_text, old_elem) in enumerate(old_elem_list)\<close>, with
  \<open>best_match_idx\<close> and \<open>best_ratio\<close> as state.
\<close>

fun best_match_loop :: "string \<Rightarrow> nat set \<Rightarrow> (nat \<times> string \<times> string) list
    \<Rightarrow> nat option \<times> rat \<Rightarrow> nat option \<times> rat" where
  "best_match_loop new_text used [] best = best"
| "best_match_loop new_text used ((idx, old_text, old_elem) # rest) (best_match_idx, best_ratio) =
     (if idx \<in> used then best_match_loop new_text used rest (best_match_idx, best_ratio)
      else if ratio old_text new_text > best_ratio
      then best_match_loop new_text used rest (Some idx, ratio old_text new_text)
      else best_match_loop new_text used rest (best_match_idx, best_ratio))"

definition best_match :: "string \<Rightarrow> nat set \<Rightarrow> (string \<times> string) list \<Rightarrow> nat option \<times> rat" where
  "best_match new_text used old_elem_list =
     best_match_loop new_text used (enumerate 0 old_elem_list) (None, 0)"

text \<open>
  The state of the outer loop.  \<open>pairs\<close> is not a variable of the script: it logs, for
  every execution of \<open>used_old_indices.add(best_match_idx)\<close>, the old index together
  with the position of the new element, so that the matching can be spoken about.
\<close>

record matcher_state =
  used_old_indices :: "nat set"
  highlighted_new_html :: string
  changes_made :: nat
  pairs :: "(nat \<times> nat) list"

text \<open>The two splices: the element with its differences marked, and the element marked as new.\<close>

definition splice_modified :: "string \<Rightarrow> string \<Rightarrow> matcher_state \<Rightarrow> py_error + matcher_state" where
  "splice_modified old_elem new_elem st =
     (case rx_match_groups TAG_MATCH new_elem of
        None \<Rightarrow> Inr st
      | Some g \<Rightarrow>
          let open_tag = group g 1; inner_content = group g 2; close_tag = group g 3;
              old_inner_content =
                (case rx_match_groups TAG_MATCH old_elem of None \<Rightarrow> [] | Some og \<Rightarrow> group og 2);
              highlighted_inner = highlight_html_diff old_inner_content inner_content;
              highlighted_elem = open_tag @ highlighted_inner @ close_tag
          in case sub_escaped_once new_elem highlighted_elem (highlighted_new_html st) of
               Inl e \<Rightarrow> Inl e
             | Inr html \<Rightarrow>
                 Inr (st\<lparr>highlighted_new_html := html, changes_made := changes_made st + 1\<rparr>))"

definition splice_added :: "string \<Rightarrow> matcher_state \<Rightarrow> py_error + matcher_state" where
  "splice_added new_elem st =
     (case rx_match_groups TAG_MATCH new_elem of
        None \<Rightarrow> Inr st
      | Some g \<Rightarrow>
          let open_tag = group g 1; inner_content = group g 2; close_tag = group g 3;
              highlighted_elem =
                open_tag @ ''<mark class=\"preview-element-added\">'' @ inner_content
                  @ ''</mark>'' @ close_tag
          in case sub_escaped_once new_elem highlighted_elem (highlighted_new_html st) of
               Inl e \<Rightarrow> Inl e
             | Inr html \<Rightarrow>
                 Inr (st\<lparr>highlighted_new_html := html, changes_made := changes_made st + 1\<rparr>))"

text \<open>
  The body of \<open>for new_elem in new_elements\<close>.  The \<open>if\<close> and the \<open>elif\<close> of the script
  are the three cases on \<open>best_match_idx\<close> and \<open>best_ratio\<close>; when neither condition
  holds the state is left as it is.
\<close>

definition process_new_elem :: "(string \<times> string) list \<Rightarrow> matcher_state \<Rightarrow> nat \<times> string
    \<Rightarrow> py_error + matcher_state" where
  "process_new_elem old_elem_list st pe =
     (case pe of (pos, new_elem) \<Rightarrow>
        let new_text = extract_text_from_element new_elem
        in if new_text = [] then Inr st
           else
             (case best_match new_text (used_old_indices st) old_elem_list of
                (Some best_match_idx, best_ratio) \<Rightarrow>
                  if best_ratio > SIMILARITY_THRESHOLD_MIN \<and> best_ratio < SIMILARITY_THRESHOLD_MAX
                  then splice_modified (snd (old_elem_list ! best_match_idx)) new_elem
                         (st\<lparr>used_old_indices := insert best_match_idx (used_old_indices st),
                             pairs := pairs st @ [(best_match_idx, pos)]\<rparr>)
                  else if best_ratio < SIMILARITY_THRESHOLD_MIN
                  then splice_added new_elem st
                  else Inr st
              | (None, best_ratio) \<Rightarrow> splice_added new_elem st))"

fun process_new_elems :: "(string \<times> string) list \<Rightarrow> matcher_state \<Rightarrow> (nat \<times> string) list
    \<Rightarrow> py_error + matcher_state" where
  "process_new_elems old_elem_list st [] = Inr st"
| "process_new_elems old_elem_list st (pe # rest) =
     (case process_new_elem old_elem_list st pe of
        Inl e \<Rightarrow> Inl e
      | Inr st' \<Rightarrow> process_new_elems old_elem_list st' rest)"

text \<open>The function after its guard \<open>if not old_html\<close>, as the final state of the loop.\<close>

definition run_matcher :: "string \<Rightarrow> string \<Rightarrow> py_error + matcher_state" where
  "run_matcher old_html new_html =
     (let old_content = extract_main_content old_html;
          new_content = extract_main_content new_html;
          old_elements = findall element_pattern old_content;
          new_elements = findall element_pattern new_content
      in process_new_elems (old_elem_list_of old_elements)
           \<lparr>used_old_indices = {}, highlighted_new_html = new_html, changes_made = 0, pairs = []\<rparr>
           (enumerate 0 new_elements))"

definition highlight_changed_elements :: "string option \<Rightarrow> string \<Rightarrow> py_error + string \<times> nat" where
  "highlight_changed_elements old_html new_html =
     (case old_html of
        None \<Rightarrow> Inr (new_html, 0)
      | Some old \<Rightarrow>
          if old = [] then Inr (new_html, 0)
          else (case run_matcher old new_html of
                  Inl e \<Rightarrow> Inl e
                | Inr st \<Rightarrow> Inr (highlighted_new_html st, changes_made st)))"

subsection \<open>The document after the inline highlighting: \<open>process_file\<close>\<close>

text \<open>
  \<open>process_file\<close> up to the banner: the document it has after the inline highlighting,
  and the similarity it has for the page, if it has one.  The file input and output and
  the text that \<open>inject_combined_banner\<close> then writes into the page are not modelled, so
  the document of the model is the page before any banner.

  \<open>fetch_base_html\<close> gives \<open>None\<close> for a base that is absent, and \<open>if old_html\<close> fails for
  \<open>None\<close> and for the empty text.  In that case nothing is highlighted; when the page
  holds \<open>PREVIEW_BANNER_PLACEHOLDER\<close> the banner is called with the similarity 0.0, and
  otherwise the function has no similarity at all.  Nothing in \<open>process_file\<close> or in
  \<open>main\<close> catches an exception of \<open>highlight_changed_elements\<close>.
\<close>

definition has_placeholder :: "string \<Rightarrow> bool" where
  "has_placeholder new_html = (rx_search (Lit ''PREVIEW_BANNER_PLACEHOLDER'') new_html \<noteq> None)"

definition process_file :: "string option \<Rightarrow> string \<Rightarrow> py_error + string \<times> rat option" where
  "process_file old_html new_html =
     (let absent = (if has_placeholder new_html then Inr (new_html, Some 0) else Inr (new_html, None))
      in case old_html of
           None \<Rightarrow> absent
         | Some old \<Rightarrow>
             if old = [] then absent
             else
               let similarity = find_changed_sections (Some old) new_html
               in case highlight_changed_elements (Some old) new_html of
                    Inl e \<Rightarrow> Inl e
                  | Inr (highlighted_html, inline_changes) \<Rightarrow>
                      Inr (if inline_changes > 0 then highlighted_html else new_html,
                           Some similarity))"

section \<open>The secondary annotator: \<open>highlight_toc_entries\<close>\<close>

text \<open>
  The pattern for one changed file, \<open>re.escape(html_file)\<close> being the literal name:
  \<open>(<a[^>]*href="[^"]*NAME[^"]*"[^>]*class="[^"]*")([^"]*"[^>]*>)\<close>.
\<close>

definition toc_pattern :: "string \<Rightarrow> rx" where
  "toc_pattern html_file =
     Cat (Grp (seq [Lit ''<a'', star (not_char CHR ''>''), Lit ''href=\"'',
                    star (not_char CHR 0x22), Lit html_file, star (not_char CHR 0x22),
                    Lit ''\"'', star (not_char CHR ''>''), Lit ''class=\"'',
                    star (not_char CHR 0x22), Lit ''\"'']))
         (Grp (seq [star (not_char CHR 0x22), Lit ''\"'', star (not_char CHR ''>''), Lit ''>'']))"

definition add_toc_highlight_class :: "string \<Rightarrow> string list \<Rightarrow> string" where
  "add_toc_highlight_class m g = group g 1 @ '' preview-toc-changed'' @ group g 2"

text \<open>
  The loop over \<open>set(changed_files)\<close>.  Python fixes no order for a set of strings; the
  model takes the files in the order of the list, each once.
\<close>

fun toc_loop :: "string \<Rightarrow> string list \<Rightarrow> string" where
  "toc_loop html [] = html"
| "toc_loop html (html_file # files) =
     toc_loop (rx_sub (toc_pattern html_file) add_toc_highlight_class html) files"

definition highlight_toc_entries :: "string \<Rightarrow> string list \<Rightarrow> string" where
  "highlight_toc_entries html changed_files =
     (if changed_files = [] then html else toc_loop html (remdups changed_files))"

section \<open>Removing the highlight markers\<close>

text \<open>
  The removal that the specification speaks of, in its words: every \<open>mark\<close> wrapper with
  one of the three preview classes is taken out, its opening tag and its closing tag,
  and the rest of the markup stays.
\<close>

definition MARKER :: rx where
  "MARKER = alts [Lit ''<mark class=\"preview-text-changed\">'',
                  Lit ''<mark class=\"preview-text-added\">'',
                  Lit ''<mark class=\"preview-element-added\">'',
                  Lit ''</mark>'']"

definition strip_markers :: "string \<Rightarrow> string" where
  "strip_markers html = rx_sub MARKER (\<lambda>m g. []) html"

section \<open>Notions used in the proofs\<close>

subsection \<open>Notions for reasoning about \<open>find_longest_match\<close>\<close>

text \<open>
  \<open>common_suffix x i j v\<close>: the \<open>v\<close> elements that end at \<open>x[i]\<close> equal the \<open>v\<close> elements
  that end at \<open>x[j]\<close>, and none of them is popular.  \<open>np_run x c k\<close>: the \<open>k\<close> elements
  that end at \<open>x[c]\<close> are not popular.
\<close>


definition common_suffix :: "'a list \<Rightarrow> nat \<Rightarrow> nat \<Rightarrow> nat \<Rightarrow> bool" where
  "common_suffix x i j v \<longleftrightarrow>
     v \<le> i + 1 \<and> v \<le> j + 1 \<and> (\<forall>t<v. x ! (i - t) = x ! (j - t) \<and> \<not> popular x (x ! (j - t)))"

definition np_run :: "'a list \<Rightarrow> nat \<Rightarrow> nat \<Rightarrow> bool" where
  "np_run x c k \<longleftrightarrow> k \<le> c + 1 \<and> (\<forall>t<k. \<not> popular x (x ! (c - t)))"

subsection \<open>The invariant of the unit matcher\<close>

text \<open>
  \<open>matching_ok n_old n st\<close>: in the log of \<open>st\<close> no old index and no new position occurs
  twice, the old indices of the log are exactly \<open>used_old_indices\<close>, every old index is
  below \<open>n_old\<close> and every new position below \<open>n\<close>.
\<close>

definition matching_ok :: "nat \<Rightarrow> nat \<Rightarrow> matcher_state \<Rightarrow> bool" where
  "matching_ok n_old n st \<longleftrightarrow>
     distinct (map fst (pairs st)) \<and> distinct (map snd (pairs st))
     \<and> set (map fst (pairs st)) = used_old_indices st
     \<and> list_all (\<lambda>(i, p). i < n_old \<and> p < n) (pairs st)"

section \<open>Properties\<close>

lemma dropWhile_all_iff: "(\<forall>x \<in> set (dropWhile P s). P x) \<longleftrightarrow> (\<forall>x \<in> set s. P x)"
  by (induction s) auto

lemma strip_empty_iff: "strip s = [] \<longleftrightarrow> (\<forall>c \<in> set s. isspace c)"
  by (simp add: strip_def dropWhile_eq_Nil_conv dropWhile_all_iff)

subsection \<open>A sequence compared with itself\<close>

text \<open>
  Comparing \<open>x\<close> with \<open>x\<close>, the first call of \<open>find_longest_match\<close> returns the whole
  of \<open>x\<close>, also when \<open>x\<close> has popular elements: the scan of \<open>b2j\<close> finds its best match
  on the diagonal, and the extension over equal elements reaches both ends.
\<close>

lemma common_suffix_step:
  assumes "x ! i = x ! j" "\<not> popular x (x ! j)"
    and "\<forall>v. j2len (j - 1) = Some v \<longrightarrow> 0 < i \<and> common_suffix x (i - 1) (j - 1) v"
  shows "common_suffix x i j ((if j = 0 then 0 else case j2len (j - 1) of None \<Rightarrow> 0 | Some v \<Rightarrow> v) + 1)"
proof (cases "j = 0 \<or> j2len (j - 1) = None")
  case True
  then show ?thesis using assms(1,2) by (auto simp: common_suffix_def)
next
  case False
  then obtain v where v: "j2len (j - 1) = Some v" "j > 0" by auto
  with assms(3) have i: "0 < i" and cs: "common_suffix x (i - 1) (j - 1) v" by auto
  have "common_suffix x i j (v + 1)"
    unfolding common_suffix_def
  proof (intro conjI allI impI)
    show "v + 1 \<le> i + 1" using cs i by (auto simp: common_suffix_def)
    show "v + 1 \<le> j + 1" using cs v by (auto simp: common_suffix_def)
  next
    fix t assume t: "t < v + 1"
    show "x ! (i - t) = x ! (j - t)"
    proof (cases t)
      case 0 then show ?thesis using assms(1) by simp
    next
      case (Suc t')
      then have "t' < v" using t by simp
      with cs have "x ! (i - 1 - t') = x ! (j - 1 - t')" by (auto simp: common_suffix_def)
      then show ?thesis using Suc by simp
    qed
    show "\<not> popular x (x ! (j - t))"
    proof (cases t)
      case 0 then show ?thesis using assms(2) by simp
    next
      case (Suc t')
      then have "t' < v" using t by simp
      with cs have "\<not> popular x (x ! (j - 1 - t'))" by (auto simp: common_suffix_def)
      then show ?thesis using Suc by simp
    qed
  qed
  then show ?thesis using v by simp
qed

lemma common_suffix_np_run_left: "common_suffix x i j k \<Longrightarrow> np_run x i k"
  by (auto simp: common_suffix_def np_run_def)

lemma common_suffix_np_run_right: "common_suffix x i j k \<Longrightarrow> np_run x j k"
  by (auto simp: common_suffix_def np_run_def)


lemma flm_row_self:
  fixes x :: "'a list"
  assumes i: "i < length x"
    and prev_sound: "\<forall>j v. j2len j = Some v \<longrightarrow> 0 < i \<and> common_suffix x (i - 1) j v"
    and prev_diag: "\<forall>k. 0 < i \<and> 1 \<le> k \<and> np_run x (i - 1) k \<longrightarrow> (\<exists>v. j2len (i - 1) = Some v \<and> k \<le> v)"
    and js: "sorted js" "distinct js" "\<forall>j \<in> set js. j < length x \<and> x ! j = x ! i \<and> \<not> popular x (x ! i)"
    and new_sound: "\<forall>j v. newm j = Some v \<longrightarrow> common_suffix x i j v"
    and diag: "bi = bj" "bi + bs \<le> length x"
    and rows: "\<forall>c k. c < i \<and> np_run x c k \<longrightarrow> k \<le> bs"
    and cur: "i \<in> set js \<or> ((\<forall>k. np_run x i k \<longrightarrow> k \<le> bs) \<and>
                (\<forall>k. 1 \<le> k \<and> np_run x i k \<longrightarrow> (\<exists>v. newm i = Some v \<and> k \<le> v)))"
    and res: "flm_row j2len i 0 (length x) js (newm, bi, bj, bs) = (m', bi', bj', bs')"
  shows "(\<forall>j v. m' j = Some v \<longrightarrow> common_suffix x i j v) \<and> bi' = bj' \<and> bi' + bs' \<le> length x
       \<and> (\<forall>c k. c \<le> i \<and> np_run x c k \<longrightarrow> k \<le> bs')
       \<and> (\<forall>k. 1 \<le> k \<and> np_run x i k \<longrightarrow> (\<exists>v. m' i = Some v \<and> k \<le> v))"
  using js new_sound diag rows cur res
proof (induction js arbitrary: newm bi bj bs)
  case Nil
  from Nil.prems(9) have eq: "m' = newm" "bi' = bi" "bj' = bj" "bs' = bs" by simp_all
  from Nil.prems(8) have c1: "\<forall>k. np_run x i k \<longrightarrow> k \<le> bs"
    and c2: "\<forall>k. 1 \<le> k \<and> np_run x i k \<longrightarrow> (\<exists>v. newm i = Some v \<and> k \<le> v)" by simp_all
  have "\<forall>c k. c \<le> i \<and> np_run x c k \<longrightarrow> k \<le> bs"
  proof (intro allI impI)
    fix c k assume "c \<le> i \<and> np_run x c k"
    then have ci: "c = i \<or> c < i" and run: "np_run x c k" by auto
    from ci show "k \<le> bs"
    proof
      assume "c = i" then show ?thesis using c1 run by blast
    next
      assume "c < i" then show ?thesis using Nil.prems(7) run by blast
    qed
  qed
  then show ?case using eq Nil.prems(4,5,6) c2 by blast
next
  case (Cons j js)
  define kk where "kk = (if j = 0 then 0 else case j2len (j - 1) of None \<Rightarrow> 0 | Some v \<Rightarrow> v) + 1"
  have j: "j < length x" "x ! j = x ! i" "\<not> popular x (x ! i)"
    using Cons.prems(3) by auto
  have kk_sound: "common_suffix x i j kk"
    unfolding kk_def
    by (rule common_suffix_step) (use j prev_sound in auto)
  have kk1: "1 \<le> kk" by (simp add: kk_def)
  have js': "sorted js" "distinct js" "\<forall>j \<in> set js. j < length x \<and> x ! j = x ! i \<and> \<not> popular x (x ! i)"
    using Cons.prems(1,2,3) by auto
  have jnotin: "j \<notin> set js" and jle: "\<forall>j' \<in> set js. j < j'"
    using Cons.prems(1,2) by (auto simp: le_less)
  have new_sound': "\<forall>j' v. (newm(j \<mapsto> kk)) j' = Some v \<longrightarrow> common_suffix x i j' v"
    using Cons.prems(4) kk_sound by auto
  \<comment> \<open>the value on the diagonal dominates every run of elements that are not popular\<close>
  have diag_val: "j = i \<Longrightarrow> np_run x i k \<Longrightarrow> k \<le> kk" for k
  proof -
    assume ji: "j = i" and run: "np_run x i k"
    show "k \<le> kk"
    proof (cases "k \<le> 1")
      case True
      then show ?thesis using kk1 by simp
    next
      case False
      then have k2: "2 \<le> k" by simp
      from run have "k \<le> i + 1" by (simp add: np_run_def)
      with k2 have ipos: "0 < i" by simp
      have "np_run x (i - 1) (k - 1)"
        unfolding np_run_def
      proof (intro conjI allI impI)
        show "k - 1 \<le> i - 1 + 1" using \<open>k \<le> i + 1\<close> ipos by simp
      next
        fix t assume "t < k - 1"
        then have "Suc t < k" by simp
        with run have "\<not> popular x (x ! (i - Suc t))" by (simp add: np_run_def)
        then show "\<not> popular x (x ! (i - 1 - t))" by simp
      qed
      moreover have "1 \<le> k - 1" using k2 by simp
      ultimately have "\<exists>v. j2len (i - 1) = Some v \<and> k - 1 \<le> v"
        using prev_diag ipos by blast
      then obtain v where "j2len (i - 1) = Some v" "k - 1 \<le> v" by blast
      then show ?thesis using ji ipos by (simp add: kk_def)
    qed
  qed
  show ?case
  proof (cases "kk > bs")
    case True
    have res': "flm_row j2len i 0 (length x) js (newm(j \<mapsto> kk), i + 1 - kk, j + 1 - kk, kk) = (m', bi', bj', bs')"
      using Cons.prems(9) j(1) True by (simp add: kk_def Let_def)
    \<comment> \<open>a strictly better match can only be found on the diagonal\<close>
    have ji: "j = i"
    proof (rule ccontr)
      assume ne: "j \<noteq> i"
      show False
      proof (cases "j < i")
        case True
        have "np_run x j kk" using kk_sound by (rule common_suffix_np_run_right)
        with Cons.prems(7) True have "kk \<le> bs" by blast
        with \<open>kk > bs\<close> show False by simp
      next
        case False
        with ne have "i < j" by simp
        then have "i \<notin> set (j # js)" using jle by auto
        with Cons.prems(8) have "\<forall>k. np_run x i k \<longrightarrow> k \<le> bs" by blast
        moreover have "np_run x i kk" using kk_sound by (rule common_suffix_np_run_left)
        ultimately have "kk \<le> bs" by blast
        with \<open>kk > bs\<close> show False by simp
      qed
    qed
    have le: "kk \<le> i + 1" using kk_sound by (simp add: common_suffix_def)
    show ?thesis
    proof (rule Cons.IH[OF js' new_sound' _ _ _ _ res'])
      show "i + 1 - kk = j + 1 - kk" using ji by simp
      show "i + 1 - kk + kk \<le> length x" using le i by simp
      show "\<forall>c k. c < i \<and> np_run x c k \<longrightarrow> k \<le> kk"
      proof (intro allI impI)
        fix c k assume "c < i \<and> np_run x c k"
        then have "k \<le> bs" using Cons.prems(7) by blast
        then show "k \<le> kk" using True by simp
      qed
      show "i \<in> set js \<or> ((\<forall>k. np_run x i k \<longrightarrow> k \<le> kk) \<and>
              (\<forall>k. 1 \<le> k \<and> np_run x i k \<longrightarrow> (\<exists>v. (newm(j \<mapsto> kk)) i = Some v \<and> k \<le> v)))"
      proof (rule disjI2, intro conjI allI impI)
        fix k assume "np_run x i k"
        then show "k \<le> kk" by (rule diag_val[OF ji])
      next
        fix k assume "1 \<le> k \<and> np_run x i k"
        then have "k \<le> kk" using diag_val[OF ji] by blast
        then show "\<exists>v. (newm(j \<mapsto> kk)) i = Some v \<and> k \<le> v" using ji by simp
      qed
    qed
  next
    case False
    have res': "flm_row j2len i 0 (length x) js (newm(j \<mapsto> kk), bi, bj, bs) = (m', bi', bj', bs')"
      using Cons.prems(9) j(1) False by (simp add: kk_def Let_def)
    show ?thesis
    proof (rule Cons.IH[OF js' new_sound' Cons.prems(5,6,7) _ res'])
      show "i \<in> set js \<or> ((\<forall>k. np_run x i k \<longrightarrow> k \<le> bs) \<and>
              (\<forall>k. 1 \<le> k \<and> np_run x i k \<longrightarrow> (\<exists>v. (newm(j \<mapsto> kk)) i = Some v \<and> k \<le> v)))"
      proof (cases "j = i")
        case True
        show ?thesis
        proof (rule disjI2, intro conjI allI impI)
          fix k assume "np_run x i k"
          then have "k \<le> kk" by (rule diag_val[OF True])
          then show "k \<le> bs" using False by simp
        next
          fix k assume "1 \<le> k \<and> np_run x i k"
          then have "k \<le> kk" using diag_val[OF True] by blast
          then show "\<exists>v. (newm(j \<mapsto> kk)) i = Some v \<and> k \<le> v" using True by simp
        qed
      next
        case ne: False
        from Cons.prems(8) show ?thesis
        proof
          assume "i \<in> set (j # js)"
          then show ?thesis using ne by simp
        next
          assume "(\<forall>k. np_run x i k \<longrightarrow> k \<le> bs) \<and>
            (\<forall>k. 1 \<le> k \<and> np_run x i k \<longrightarrow> (\<exists>v. newm i = Some v \<and> k \<le> v))"
          then show ?thesis using ne by simp
        qed
      qed
    qed
  qed
qed


lemma b2j_sorted: "sorted (b2j b v)" and b2j_distinct: "distinct (b2j b v)"
  by (simp_all add: b2j_def sorted_wrt_filter)

lemma b2j_member: "j \<in> set (b2j b v) \<longleftrightarrow> \<not> popular b v \<and> j < length b \<and> b ! j = v"
  by (auto simp: b2j_def)

lemma np_run_popular: "popular x (x ! i) \<Longrightarrow> np_run x i k \<Longrightarrow> k = 0"
  by (cases k) (auto simp: np_run_def)

lemma flm_rows_self:
  fixes x :: "'a list"
  assumes "\<forall>j v. j2len j = Some v \<longrightarrow> 0 < i0 \<and> common_suffix x (i0 - 1) j v"
    and "\<forall>k. 0 < i0 \<and> 1 \<le> k \<and> np_run x (i0 - 1) k \<longrightarrow> (\<exists>v. j2len (i0 - 1) = Some v \<and> k \<le> v)"
    and "bi = bj" "bi + bs \<le> length x"
    and "\<forall>c k. c < i0 \<and> np_run x c k \<longrightarrow> k \<le> bs"
    and "flm_rows x x 0 (length x) [i0..<length x] (j2len, bi, bj, bs) = (bi', bj', bs')"
  shows "bi' = bj' \<and> bi' + bs' \<le> length x"
  using assms
proof (induction "length x - i0" arbitrary: i0 j2len bi bj bs)
  case 0
  then show ?case by simp
next
  case (Suc n)
  then have lt: "i0 < length x" by simp
  let ?js = "b2j x (x ! i0)"
  obtain m1 b1 c1 s1 where row:
    "flm_row j2len i0 0 (length x) ?js (Map.empty, bi, bj, bs) = (m1, b1, c1, s1)"
    by (metis prod_cases4)
  have js: "\<forall>j \<in> set ?js. j < length x \<and> x ! j = x ! i0 \<and> \<not> popular x (x ! i0)"
    by (simp add: b2j_member)
  have cur: "i0 \<in> set ?js \<or> ((\<forall>k. np_run x i0 k \<longrightarrow> k \<le> bs) \<and>
                (\<forall>k. 1 \<le> k \<and> np_run x i0 k \<longrightarrow> (\<exists>v. Map.empty i0 = Some v \<and> k \<le> v)))"
  proof (cases "popular x (x ! i0)")
    case True
    then have "\<forall>k. np_run x i0 k \<longrightarrow> k = 0" using np_run_popular by blast
    then show ?thesis by auto
  next
    case False
    then show ?thesis using lt by (simp add: b2j_member)
  qed
  have inv: "(\<forall>j v. m1 j = Some v \<longrightarrow> common_suffix x i0 j v) \<and> b1 = c1 \<and> b1 + s1 \<le> length x
       \<and> (\<forall>c k. c \<le> i0 \<and> np_run x c k \<longrightarrow> k \<le> s1)
       \<and> (\<forall>k. 1 \<le> k \<and> np_run x i0 k \<longrightarrow> (\<exists>v. m1 i0 = Some v \<and> k \<le> v))"
    by (rule flm_row_self[OF lt Suc.prems(1,2) b2j_sorted b2j_distinct js _ Suc.prems(3,4,5) cur row])
      simp
  have rest: "flm_rows x x 0 (length x) [Suc i0..<length x] (m1, b1, c1, s1) = (bi', bj', bs')"
    using Suc.prems(6) lt row by (simp add: upt_conv_Cons)
  have n: "n = length x - Suc i0" using Suc.hyps(2) by simp
  show ?case
  proof (rule Suc.hyps(1)[OF n _ _ _ _ _ rest])
    show "\<forall>j v. m1 j = Some v \<longrightarrow> 0 < Suc i0 \<and> common_suffix x (Suc i0 - 1) j v"
      using inv by simp
    show "\<forall>k. 0 < Suc i0 \<and> 1 \<le> k \<and> np_run x (Suc i0 - 1) k \<longrightarrow> (\<exists>v. m1 (Suc i0 - 1) = Some v \<and> k \<le> v)"
      using inv by simp
    show "b1 = c1" "b1 + s1 \<le> length x" using inv by simp_all
    show "\<forall>c k. c < Suc i0 \<and> np_run x c k \<longrightarrow> k \<le> s1"
      using inv by (simp add: less_Suc_eq_le)
  qed
qed

lemma extend_left_self:
  "\<forall>y. want y \<Longrightarrow> extend_left want x x 0 0 (d, d, s) = (0, 0, s + d)"
proof (induction d arbitrary: s)
  case 0
  then show ?case by (subst extend_left.simps) simp
next
  case (Suc d)
  have "extend_left want x x 0 0 (Suc d, Suc d, s) = extend_left want x x 0 0 (d, d, s + 1)"
    using Suc.prems by (subst extend_left.simps) simp
  also have "\<dots> = (0, 0, s + 1 + d)" by (rule Suc.IH[OF Suc.prems])
  finally show ?case by simp
qed

lemma extend_right_self:
  "\<forall>y. want y \<Longrightarrow> s \<le> n \<Longrightarrow> extend_right want x x n n (0, 0, s) = (0, 0, n)"
proof (induction "n - s" arbitrary: s)
  case 0
  then show ?case by (subst extend_right.simps) simp
next
  case (Suc m)
  then have "extend_right want x x n n (0, 0, s) = extend_right want x x n n (0, 0, s + 1)"
    by (subst extend_right.simps) simp
  also have "\<dots> = (0, 0, n)"
    by (rule Suc.hyps(1)) (use Suc in auto)
  finally show ?case .
qed

lemma extend_left_none: "\<forall>y. \<not> want y \<Longrightarrow> extend_left want a b alo blo best = best"
  by (cases best) (simp add: extend_left.simps)

lemma extend_right_none: "\<forall>y. \<not> want y \<Longrightarrow> extend_right want a b ahi bhi best = best"
  by (cases best) (simp add: extend_right.simps)

lemma find_longest_match_self:
  "find_longest_match x x 0 (length x) 0 (length x) = (0, 0, length x)"
proof -
  obtain d d' s where rows:
    "flm_rows x x 0 (length x) [0..<length x] (Map.empty, 0, 0, 0) = (d, d', s)"
    by (metis prod_cases3)
  have "d = d' \<and> d + s \<le> length x"
    by (rule flm_rows_self[OF _ _ _ _ _ rows]) simp_all
  then have d: "d' = d" and le: "s + d \<le> length x" by simp_all
  have nj: "\<forall>y::'a. \<not> isbjunk y" by (simp add: isbjunk_def)
  then have nj': "\<forall>y::'a. (\<lambda>x. \<not> isbjunk x) y" by simp
  show ?thesis
    unfolding find_longest_match_def Let_def rows d
    by (simp only: extend_left_self[OF nj'] extend_right_self[OF nj' le]
        extend_left_none[OF nj] extend_right_none[OF nj])
qed

lemma mb_loop_self: "x \<noteq> [] \<Longrightarrow> mb_loop x x [(0, length x, 0, length x)] [] = [(0, 0, length x)]"
  by (simp add: find_longest_match_self)

lemma get_matching_blocks_self:
  assumes "x \<noteq> []"
  shows "get_matching_blocks x x = [(0, 0, length x), (length x, length x, 0)]"
  unfolding get_matching_blocks_def mb_loop_self[OF assms] using assms by simp

lemma ratio_self: "ratio x x = 1"
proof (cases "x = []")
  case True
  then show ?thesis by (simp add: ratio_def calculate_ratio_def)
next
  case False
  then show ?thesis
    by (simp add: ratio_def calculate_ratio_def get_matching_blocks_self)
qed

subsection \<open>The unit matcher\<close>

lemma best_match_loop_result:
  assumes "best_match_loop new_text used xs (bi, br) = (bi', br')"
  shows "bi' = bi \<or> (\<exists>idx old_text old_elem. (idx, old_text, old_elem) \<in> set xs \<and> idx \<notin> used \<and> bi' = Some idx)"
  using assms
proof (induction xs arbitrary: bi br)
  case Nil
  then show ?case by simp
next
  case (Cons x xs)
  obtain idx old_text old_elem where x: "x = (idx, old_text, old_elem)" by (cases x)
  show ?case
  proof (cases "idx \<in> used")
    case True
    with Cons.prems x have "best_match_loop new_text used xs (bi, br) = (bi', br')" by simp
    from Cons.IH[OF this] show ?thesis by auto
  next
    case False
    show ?thesis
    proof (cases "ratio old_text new_text > br")
      case True
      with Cons.prems x False
      have "best_match_loop new_text used xs (Some idx, ratio old_text new_text) = (bi', br')" by simp
      from Cons.IH[OF this] show ?thesis using x False by auto
    next
      case nb: False
      with Cons.prems x False have "best_match_loop new_text used xs (bi, br) = (bi', br')" by simp
      from Cons.IH[OF this] show ?thesis by auto
    qed
  qed
qed

lemma best_match_unused:
  assumes "best_match new_text used old_elem_list = (Some idx, r)"
  shows "idx \<notin> used \<and> idx < length old_elem_list"
proof -
  from assms have "best_match_loop new_text used (enumerate 0 old_elem_list) (None, 0) = (Some idx, r)"
    by (simp add: best_match_def)
  from best_match_loop_result[OF this]
  obtain old_text old_elem where "(idx, old_text, old_elem) \<in> set (enumerate 0 old_elem_list)" "idx \<notin> used"
    by auto
  then show ?thesis by (auto simp: in_set_enumerate_eq)
qed

lemma splice_modified_keeps:
  "splice_modified old_elem new_elem st = Inr st' \<Longrightarrow>
     pairs st' = pairs st \<and> used_old_indices st' = used_old_indices st"
  by (auto simp: splice_modified_def Let_def split: option.splits sum.splits)

lemma splice_added_keeps:
  "splice_added new_elem st = Inr st' \<Longrightarrow>
     pairs st' = pairs st \<and> used_old_indices st' = used_old_indices st"
  by (auto simp: splice_added_def Let_def split: option.splits sum.splits)

text \<open>What one iteration does to the log: nothing, or one new pair with an unused old index.\<close>

lemma process_new_elem_pairs:
  assumes "process_new_elem old_elem_list st (pos, new_elem) = Inr st'"
  shows "(pairs st' = pairs st \<and> used_old_indices st' = used_old_indices st) \<or>
         (\<exists>idx. idx \<notin> used_old_indices st \<and> idx < length old_elem_list \<and> pairs st' = pairs st @ [(idx, pos)]
            \<and> used_old_indices st' = insert idx (used_old_indices st))"
proof (cases "extract_text_from_element new_elem = []")
  case True
  with assms show ?thesis by (simp add: process_new_elem_def)
next
  case False
  obtain bi br where bm: "best_match (extract_text_from_element new_elem) (used_old_indices st) old_elem_list = (bi, br)"
    by (cases "best_match (extract_text_from_element new_elem) (used_old_indices st) old_elem_list")
  show ?thesis
  proof (cases bi)
    case None
    with assms False bm have "splice_added new_elem st = Inr st'"
      by (simp add: process_new_elem_def)
    from splice_added_keeps[OF this] show ?thesis by simp
  next
    case (Some idx)
    from best_match_unused[OF bm[unfolded Some]] have idx: "idx \<notin> used_old_indices st" "idx < length old_elem_list"
      by simp_all
    show ?thesis
    proof (cases "br > SIMILARITY_THRESHOLD_MIN \<and> br < SIMILARITY_THRESHOLD_MAX")
      case True
      let ?st1 = "st\<lparr>used_old_indices := insert idx (used_old_indices st), pairs := pairs st @ [(idx, pos)]\<rparr>"
      from assms False bm Some True
      have "splice_modified (snd (old_elem_list ! idx)) new_elem ?st1 = Inr st'"
        by (simp add: process_new_elem_def)
      from splice_modified_keeps[OF this] idx show ?thesis by simp
    next
      case nm: False
      show ?thesis
      proof (cases "br < SIMILARITY_THRESHOLD_MIN")
        case True
        with assms False bm Some nm have "splice_added new_elem st = Inr st'"
          by (auto simp add: process_new_elem_def)
        from splice_added_keeps[OF this] show ?thesis by simp
      next
        case False
        with assms \<open>extract_text_from_element new_elem \<noteq> []\<close> bm Some nm have "st' = st"
          by (auto simp add: process_new_elem_def)
        then show ?thesis by simp
      qed
    qed
  qed
qed

lemma process_new_elems_matching:
  assumes "process_new_elems old_elem_list st (enumerate n new_elements) = Inr st'"
    and "matching_ok (length old_elem_list) n st"
  shows "matching_ok (length old_elem_list) (n + length new_elements) st'"
  using assms
proof (induction new_elements arbitrary: n st)
  case Nil
  then show ?case by simp
next
  case (Cons e es)
  from Cons.prems(1) obtain st1 where
    step: "process_new_elem old_elem_list st (n, e) = Inr st1" and
    rest: "process_new_elems old_elem_list st1 (enumerate (Suc n) es) = Inr st'"
    by (auto split: sum.splits)
  have "matching_ok (length old_elem_list) (Suc n) st1"
    using process_new_elem_pairs[OF step]
  proof
    assume "pairs st1 = pairs st \<and> used_old_indices st1 = used_old_indices st"
    with Cons.prems(2) show ?thesis
      by (auto simp: matching_ok_def list_all_iff)
  next
    assume "\<exists>idx. idx \<notin> used_old_indices st \<and> idx < length old_elem_list \<and> pairs st1 = pairs st @ [(idx, n)]
            \<and> used_old_indices st1 = insert idx (used_old_indices st)"
    then obtain idx where idx: "idx \<notin> used_old_indices st" "idx < length old_elem_list"
      "pairs st1 = pairs st @ [(idx, n)]" "used_old_indices st1 = insert idx (used_old_indices st)"
      by blast
    have "n \<notin> set (map snd (pairs st))"
      using Cons.prems(2) by (auto simp: matching_ok_def list_all_iff)
    moreover have "idx \<notin> set (map fst (pairs st))"
      using Cons.prems(2) idx(1) by (simp add: matching_ok_def)
    ultimately show ?thesis
      using Cons.prems(2) idx by (auto simp: matching_ok_def list_all_iff)
  qed
  from Cons.IH[OF rest this] show ?case by simp
qed

lemma best_match_loop_char:
  assumes "best_match_loop new_text used xs (bi, br) = (bi', br')"
  shows "br \<le> br' \<and> (\<forall>idx t e. (idx, t, e) \<in> set xs \<longrightarrow> idx \<notin> used \<longrightarrow> ratio t new_text \<le> br') \<and>
     ((bi', br') = (bi, br) \<or>
      (\<exists>pre idx t e post. xs = pre @ (idx, t, e) # post \<and> idx \<notin> used \<and> bi' = Some idx
         \<and> br' = ratio t new_text \<and> br < br'
         \<and> (\<forall>idx' t' e'. (idx', t', e') \<in> set pre \<longrightarrow> idx' \<notin> used \<longrightarrow> ratio t' new_text < br')))"
  using assms
proof (induction xs arbitrary: bi br)
  case Nil
  then show ?case by simp
next
  case (Cons x xs)
  obtain idx t e where x: "x = (idx, t, e)" by (cases x)
  let ?found = "\<lambda>ys b. \<exists>pre idx t e post. ys = pre @ (idx, t, e) # post \<and> idx \<notin> used \<and> bi' = Some idx
         \<and> br' = ratio t new_text \<and> b < br'
         \<and> (\<forall>idx' t' e'. (idx', t', e') \<in> set pre \<longrightarrow> idx' \<notin> used \<longrightarrow> ratio t' new_text < br')"
  show ?case
  proof (cases "idx \<in> used")
    case True
    with Cons.prems x have run: "best_match_loop new_text used xs (bi, br) = (bi', br')" by simp
    note ih = Cons.IH[OF run]
    have "(bi', br') = (bi, br) \<or> ?found (x # xs) br"
    proof (cases "(bi', br') = (bi, br)")
      case False
      with ih obtain pre idx2 t2 e2 post where f: "xs = pre @ (idx2, t2, e2) # post" "idx2 \<notin> used"
        "bi' = Some idx2" "br' = ratio t2 new_text" "br < br'"
        "\<forall>idx' t' e'. (idx', t', e') \<in> set pre \<longrightarrow> idx' \<notin> used \<longrightarrow> ratio t' new_text < br'"
        by blast
      have "x # xs = (x # pre) @ (idx2, t2, e2) # post" using f(1) by simp
      moreover have "\<forall>idx' t' e'. (idx', t', e') \<in> set (x # pre) \<longrightarrow> idx' \<notin> used \<longrightarrow> ratio t' new_text < br'"
        using f(6) x True by auto
      ultimately show ?thesis using f(2-5) by blast
    qed simp
    then show ?thesis using ih x True by auto
  next
    case unused: False
    show ?thesis
    proof (cases "ratio t new_text > br")
      case True
      with Cons.prems x unused
      have run: "best_match_loop new_text used xs (Some idx, ratio t new_text) = (bi', br')" by simp
      note ih = Cons.IH[OF run]
      have "?found (x # xs) br"
      proof (cases "(bi', br') = (Some idx, ratio t new_text)")
        case same: True
        have "x # xs = [] @ (idx, t, e) # xs" using x by simp
        then show ?thesis using same unused True by fastforce
      next
        case False
        with ih obtain pre idx2 t2 e2 post where f: "xs = pre @ (idx2, t2, e2) # post" "idx2 \<notin> used"
          "bi' = Some idx2" "br' = ratio t2 new_text" "ratio t new_text < br'"
          "\<forall>idx' t' e'. (idx', t', e') \<in> set pre \<longrightarrow> idx' \<notin> used \<longrightarrow> ratio t' new_text < br'"
          by blast
        have "x # xs = (x # pre) @ (idx2, t2, e2) # post" using f(1) by simp
        moreover have "\<forall>idx' t' e'. (idx', t', e') \<in> set (x # pre) \<longrightarrow> idx' \<notin> used \<longrightarrow> ratio t' new_text < br'"
          using f(5,6) x by auto
        moreover have "br < br'" using True f(5) by simp
        ultimately show ?thesis using f(2-4) by blast
      qed
      moreover have "br \<le> br'" using ih True by simp
      moreover have "\<forall>idx t e. (idx, t, e) \<in> set (x # xs) \<longrightarrow> idx \<notin> used \<longrightarrow> ratio t new_text \<le> br'"
        using ih x by auto
      ultimately show ?thesis by blast
    next
      case le: False
      with Cons.prems x unused have run: "best_match_loop new_text used xs (bi, br) = (bi', br')" by simp
      note ih = Cons.IH[OF run]
      have "(bi', br') = (bi, br) \<or> ?found (x # xs) br"
      proof (cases "(bi', br') = (bi, br)")
        case False
        with ih obtain pre idx2 t2 e2 post where f: "xs = pre @ (idx2, t2, e2) # post" "idx2 \<notin> used"
          "bi' = Some idx2" "br' = ratio t2 new_text" "br < br'"
          "\<forall>idx' t' e'. (idx', t', e') \<in> set pre \<longrightarrow> idx' \<notin> used \<longrightarrow> ratio t' new_text < br'"
          by blast
        have "x # xs = (x # pre) @ (idx2, t2, e2) # post" using f(1) by simp
        moreover have "\<forall>idx' t' e'. (idx', t', e') \<in> set (x # pre) \<longrightarrow> idx' \<notin> used \<longrightarrow> ratio t' new_text < br'"
          using f(5,6) x le by auto
        ultimately show ?thesis using f(2-5) by blast
      qed simp
      moreover have "\<forall>idx t e. (idx, t, e) \<in> set (x # xs) \<longrightarrow> idx \<notin> used \<longrightarrow> ratio t new_text \<le> br'"
        using ih x le by auto
      ultimately show ?thesis using ih by blast
    qed
  qed
qed

lemma enumerate_split:
  assumes "enumerate 0 xs = pre @ (idx, y) # post"
  shows "idx = length pre \<and> idx < length xs \<and> y = xs ! idx \<and> pre = enumerate 0 (take idx xs)"
proof -
  have len: "length pre < length xs"
    using arg_cong[OF assms, of length] by simp
  have "(enumerate 0 xs) ! length pre = (idx, y)" using assms by simp
  moreover have "(enumerate 0 xs) ! length pre = (length pre, xs ! length pre)"
    using len by (simp add: nth_enumerate_eq)
  ultimately have "(idx, y) = (length pre, xs ! length pre)"
    by (rule trans[OF sym])
  then have 1: "idx = length pre" "y = xs ! length pre"
    by blast+
  have tk: "take (length pre) (enumerate 0 xs) = pre" using assms by simp
  have "enumerate 0 (take (length pre) xs @ drop (length pre) xs)
      = enumerate 0 (take (length pre) xs)
          @ enumerate (0 + length (take (length pre) xs)) (drop (length pre) xs)"
    by (rule enumerate_append_eq)
  then have "take (length pre) (enumerate 0 xs) = enumerate 0 (take (length pre) xs)"
    using len by simp
  with tk have "pre = enumerate 0 (take (length pre) xs)" by simp
  with 1 len show ?thesis by simp
qed

text \<open>The result of the inner loop, in full.\<close>

lemma best_match_char:
  assumes "best_match new_text used old_elem_list = (bi, r)"
  shows "(\<forall>j < length old_elem_list. j \<notin> used \<longrightarrow> ratio (fst (old_elem_list ! j)) new_text \<le> r)
     \<and> (case bi of
          None \<Rightarrow> r = 0
        | Some i \<Rightarrow> i < length old_elem_list \<and> i \<notin> used \<and> r = ratio (fst (old_elem_list ! i)) new_text
                     \<and> 0 < r
                     \<and> (\<forall>j < i. j \<notin> used \<longrightarrow> ratio (fst (old_elem_list ! j)) new_text < r))"
proof -
  let ?xs = "enumerate 0 old_elem_list"
  from assms have run: "best_match_loop new_text used ?xs (None, 0) = (bi, r)"
    by (simp add: best_match_def)
  note ch = best_match_loop_char[OF run]
  have all: "\<forall>j < length old_elem_list. j \<notin> used \<longrightarrow> ratio (fst (old_elem_list ! j)) new_text \<le> r"
  proof (intro allI impI)
    fix j assume j: "j < length old_elem_list" "j \<notin> used"
    then have "(j, fst (old_elem_list ! j), snd (old_elem_list ! j)) \<in> set ?xs"
      by (simp add: in_set_enumerate_eq)
    with ch j(2) show "ratio (fst (old_elem_list ! j)) new_text \<le> r" by blast
  qed
  show ?thesis
  proof (cases "(bi, r) = (None, 0)")
    case True
    then show ?thesis using all by simp
  next
    case False
    with ch obtain pre idx t e post where f: "?xs = pre @ (idx, t, e) # post" "idx \<notin> used"
      "bi = Some idx" "r = ratio t new_text" "0 < r"
      "\<forall>idx' t' e'. (idx', t', e') \<in> set pre \<longrightarrow> idx' \<notin> used \<longrightarrow> ratio t' new_text < r"
      by blast
    from enumerate_split[OF f(1)] have s: "idx < length old_elem_list" "(t, e) = old_elem_list ! idx"
      "pre = enumerate 0 (take idx old_elem_list)" by blast+
    have "\<forall>j < idx. j \<notin> used \<longrightarrow> ratio (fst (old_elem_list ! j)) new_text < r"
    proof (intro allI impI)
      fix j assume j: "j < idx" "j \<notin> used"
      then have "(j, fst (old_elem_list ! j), snd (old_elem_list ! j)) \<in> set pre"
        using s(1,3) by (simp add: in_set_enumerate_eq)
      with f(6) j(2) show "ratio (fst (old_elem_list ! j)) new_text < r" by blast
    qed
    moreover have "t = fst (old_elem_list ! idx)" using s(2) by (metis fst_conv)
    ultimately show ?thesis using all f s(1) by simp
  qed
qed

subsection \<open>C6: whitespace and highlight markers\<close>

text \<open>
  C6, as stated, fails: a whitespace-only sub-span of a text token is wrapped when a
  change range covers it.  In the token \<open>a b\<close> the range \<open>[1, 2)\<close> is the blank alone,
  and the blank comes back inside a \<open>mark\<close> element.  The aligner produces such ranges:
  when one blank between two words becomes two, the run of blanks is a replaced word.
\<close>

theorem C6_whitespace_subspan_counterexample:
  "apply_highlights_to_text ''a b'' 0 [(1, 2, Replace)]
     = ''a<mark class=\"preview-text-changed\"> </mark>b'' \<and>
   highlight_html_diff ''a b'' ''a  b''
     = ''a<mark class=\"preview-text-changed\">  </mark>b''"
  by code_simp

text \<open>
  C6, amended: a text token that consists only of whitespace is returned as it is, with
  no highlight marker, whatever its offset and whatever change ranges overlap it.
\<close>

theorem C6_whitespace_token_unwrapped:
  "(\<forall>c \<in> set text. isspace c) \<Longrightarrow>
     apply_highlights_to_text text text_start_pos changed_ranges = text"
  by (simp add: apply_highlights_to_text_def strip_empty_iff)

theorem C6_whitespace_token_unwrapped_witness:
  "list_all isspace ''  '' \<and>
     apply_highlights_to_text ''  '' 3 [(0, 9, Replace), (4, 5, Insert)] = ''  ''"
proof -
  have h: "\<forall>c \<in> set ''  ''. isspace c"
    by (simp add: isspace_def)
  show ?thesis
    using h C6_whitespace_token_unwrapped [OF h, of 3 "[(0, 9, Replace), (4, 5, Insert)]"]
    by (simp add: list_all_iff)
qed


subsection \<open>C8: the matching is partial and injective\<close>

text \<open>
  C8: for every list of old units and every list of new units, whenever the loop of
  \<open>highlight_changed_elements\<close> runs to its end from its initial state (\<open>run_matcher\<close> is
  this loop on the units of two documents), no old unit and no new unit takes part in
  more than one matched pair: in the log of the executions of
  \<open>used_old_indices.add(best_match_idx)\<close> the old indices are distinct and the positions
  of the new elements are distinct.  The old indices logged are exactly the set
  \<open>used_old_indices\<close> of the script, and every pair joins an old unit and a new unit
  of the two lists.
\<close>

theorem C8_matching_injective:
  assumes "process_new_elems old_elem_list
             \<lparr>used_old_indices = {}, highlighted_new_html = new_html, changes_made = 0, pairs = []\<rparr>
             (enumerate 0 new_elements) = Inr st"
  shows "distinct (map fst (pairs st)) \<and> distinct (map snd (pairs st))
       \<and> set (map fst (pairs st)) = used_old_indices st
       \<and> list_all (\<lambda>(i, p). i < length old_elem_list \<and> p < length new_elements) (pairs st)"
proof -
  let ?st0 = "\<lparr>used_old_indices = {}, highlighted_new_html = new_html, changes_made = 0, pairs = []\<rparr>"
  have "matching_ok (length old_elem_list) 0 ?st0"
    by (simp add: matching_ok_def)
  from process_new_elems_matching[OF assms this] show ?thesis
    by (simp add: matching_ok_def)
qed

theorem C8_matching_injective_witness:
  "process_new_elems
     [(''The cat sat.'', ''<p>The cat sat.</p>''), (''A dog ran.'', ''<p>A dog ran.</p>'')]
     \<lparr>used_old_indices = {},
        highlighted_new_html = ''<p>A dog runs.</p><p>The cat slept.</p>'',
        changes_made = 0, pairs = []\<rparr>
     (enumerate 0 [''<p>A dog runs.</p>'', ''<p>The cat slept.</p>''])
     = Inr \<lparr>used_old_indices = {0, 1},
         highlighted_new_html =
           ''<p>A dog <mark class=\"preview-text-changed\">runs.</mark></p><p>The cat <mark class=\"preview-text-changed\">slept.</mark></p>'',
         changes_made = 2, pairs = [(1, 0), (0, 1)]\<rparr>
   \<and> distinct (map fst [(1, 0), (0, 1 :: nat)] :: nat list)
   \<and> distinct (map snd [(1 :: nat, 0), (0, 1)] :: nat list)"
proof -
  have run: "process_new_elems
     [(''The cat sat.'', ''<p>The cat sat.</p>''), (''A dog ran.'', ''<p>A dog ran.</p>'')]
     \<lparr>used_old_indices = {},
        highlighted_new_html = ''<p>A dog runs.</p><p>The cat slept.</p>'',
        changes_made = 0, pairs = []\<rparr>
     (enumerate 0 [''<p>A dog runs.</p>'', ''<p>The cat slept.</p>''])
     = Inr \<lparr>used_old_indices = {0, 1},
         highlighted_new_html =
           ''<p>A dog <mark class=\"preview-text-changed\">runs.</mark></p><p>The cat <mark class=\"preview-text-changed\">slept.</mark></p>'',
         changes_made = 2, pairs = [(1, 0), (0, 1)]\<rparr>"
    by code_simp
  from C8_matching_injective[OF run] run show ?thesis by simp
qed

subsection \<open>C10: ties between old units\<close>

text \<open>
  C10, as stated, fails when the maximal ratio is 0: \<open>best_ratio\<close> starts at 0.0 and a
  candidate replaces the best only on a strictly greater ratio, so two unused old units
  that both have ratio 0 with the new unit share the maximal ratio and neither is
  selected.
\<close>

theorem C10_tie_at_zero_counterexample:
  "ratio ''xyz'' ''abc'' = 0 \<and>
   best_match ''abc'' {} [(''xyz'', ''<p>xyz</p>''), (''xyz'', ''<li>xyz</li>'')] = (None, 0)"
  by code_simp

text \<open>
  C10, amended: when an unused old unit \<open>j\<close> has a ratio greater than 0 that no unused
  old unit exceeds, and every unused old unit before \<open>j\<close> has a strictly smaller ratio
  (so \<open>j\<close> is the earliest of those that reach the maximum), the inner loop selects \<open>j\<close>
  with that ratio.
\<close>

theorem C10_earliest_maximal_selected:
  assumes j: "j < length old_elem_list" "j \<notin> used"
    and pos: "0 < ratio (fst (old_elem_list ! j)) new_text"
    and maximal: "\<forall>k < length old_elem_list. k \<notin> used \<longrightarrow>
                    ratio (fst (old_elem_list ! k)) new_text \<le> ratio (fst (old_elem_list ! j)) new_text"
    and earliest: "\<forall>k < j. k \<notin> used \<longrightarrow>
                    ratio (fst (old_elem_list ! k)) new_text < ratio (fst (old_elem_list ! j)) new_text"
  shows "best_match new_text used old_elem_list = (Some j, ratio (fst (old_elem_list ! j)) new_text)"
proof -
  let ?r = "\<lambda>k. ratio (fst (old_elem_list ! k)) new_text"
  obtain bi r where bm: "best_match new_text used old_elem_list = (bi, r)"
    by (cases "best_match new_text used old_elem_list")
  note ch = best_match_char[OF bm]
  from ch j have jr: "?r j \<le> r" by blast
  with pos have "r \<noteq> 0" by simp
  with ch obtain i where i: "bi = Some i" "i < length old_elem_list" "i \<notin> used" "r = ?r i"
    "\<forall>k < i. k \<notin> used \<longrightarrow> ?r k < r"
    by (cases bi) auto
  have "r \<le> ?r j" using maximal i(2,3,4) by blast
  with jr have eq: "r = ?r j" by simp
  have "i = j"
  proof (rule ccontr)
    assume "i \<noteq> j"
    then consider "i < j" | "j < i" by linarith
    then show False
    proof cases
      case 1
      with earliest i(3) have "?r i < ?r j" by blast
      with i(4) eq show False by simp
    next
      case 2
      with i(5) j(2) have "?r j < r" by blast
      with eq show False by simp
    qed
  qed
  with bm i(1) eq show ?thesis by simp
qed

theorem C10_earliest_maximal_selected_witness:
  "ratio ''abxd'' ''abcd'' = ratio ''abyd'' ''abcd'' \<and>
   best_match ''abcd'' {0} [(''abcd'', ''<p>abcd</p>''), (''abxd'', ''<p>abxd</p>''),
                            (''q'', ''<p>q</p>''), (''abyd'', ''<p>abyd</p>'')]
     = (Some 1, 3 / 4)"
proof -
  let ?old = "[(''abcd'', ''<p>abcd</p>''), (''abxd'', ''<p>abxd</p>''),
               (''q'', ''<p>q</p>''), (''abyd'', ''<p>abyd</p>'')]"
  have r1: "ratio ''abxd'' ''abcd'' = 3 / 4" by code_simp
  have r2: "ratio ''q'' ''abcd'' = 0" by code_simp
  have r3: "ratio ''abyd'' ''abcd'' = 3 / 4" by code_simp
  have small: "k < 4 \<Longrightarrow> k = 0 \<or> k = 1 \<or> k = 2 \<or> k = 3" for k :: nat by arith
  have j: "(1::nat) < length ?old" "(1::nat) \<notin> {0}" by simp_all
  have pos: "0 < ratio (fst (?old ! 1)) ''abcd''" using r1 by simp
  have maximal: "\<forall>k < length ?old. k \<notin> {0} \<longrightarrow>
      ratio (fst (?old ! k)) ''abcd'' \<le> ratio (fst (?old ! 1)) ''abcd''"
  proof (intro allI impI)
    fix k assume "k < length ?old" "k \<notin> {0}"
    then have "k = 1 \<or> k = 2 \<or> k = 3" using small[of k] by simp
    then show "ratio (fst (?old ! k)) ''abcd'' \<le> ratio (fst (?old ! 1)) ''abcd''"
      using r1 r2 r3 by (auto simp: numeral_2_eq_2 numeral_3_eq_3)
  qed
  have earliest: "\<forall>k < 1. k \<notin> {0} \<longrightarrow>
      ratio (fst (?old ! k)) ''abcd'' < ratio (fst (?old ! 1)) ''abcd''"
    by simp
  from C10_earliest_maximal_selected[OF j pos maximal earliest] r1 r3
  show ?thesis by simp
qed


subsection \<open>C9: the similarity of whole documents\<close>

text \<open>
  C9, as stated, fails: the similarity is not symmetric.  \<open>difflib\<close>'s ratio depends on
  the order of its arguments, and the documents \<open>tide\<close> and \<open>diet\<close> have similarity
  1/4 in one order and 1/2 in the other.
\<close>

theorem C9_not_symmetric_counterexample:
  "find_changed_sections (Some ''tide'') ''diet'' = 1 / 4 \<and>
   find_changed_sections (Some ''diet'') ''tide'' = 1 / 2 \<and>
   find_changed_sections (Some ''tide'') ''diet'' \<noteq> find_changed_sections (Some ''diet'') ''tide''"
  by code_simp

text \<open>
  C9, amended: every document that is not empty has similarity 1 with itself.  (An empty
  old document counts as absent, and symmetry is not claimed.)
\<close>

theorem C9_self_similarity:
  "doc \<noteq> [] \<Longrightarrow> find_changed_sections (Some doc) doc = 1"
  by (simp add: find_changed_sections_def ratio_self)

theorem C9_self_similarity_witness:
  "find_changed_sections (Some ''<main><p>A quick brown fox.</p></main>'')
     ''<main><p>A quick brown fox.</p></main>'' = 1"
proof -
  have h: "''<main><p>A quick brown fox.</p></main>'' \<noteq> []" by simp
  from C9_self_similarity[OF h] show ?thesis .
qed

subsection \<open>C4: an old document that is absent\<close>

text \<open>
  C4, as stated, fails: with no old document the only content unit of
  \<open><p>Brand new page.</p>\<close> is not flagged; the document comes back as it was, with no
  marker and no change counted.
\<close>

theorem C4_absent_old_counterexample:
  "findall element_pattern (extract_main_content ''<p>Brand new page.</p>'')
     = [''<p>Brand new page.</p>''] \<and>
   highlight_changed_elements None ''<p>Brand new page.</p>''
     = Inr (''<p>Brand new page.</p>'', 0)"
  by code_simp

text \<open>
  C4, amended: when the old document is absent the pipeline short-circuits: the
  similarity that \<open>find_changed_sections\<close> reports is 0, and
  \<open>highlight_changed_elements\<close> counts no change and returns the new document unchanged,
  so no content unit is flagged.
\<close>

theorem C4_absent_old_passes_through:
  "find_changed_sections None new_html = 0 \<and>
   highlight_changed_elements None new_html = Inr (new_html, 0)"
  by (simp add: find_changed_sections_def highlight_changed_elements_def)

subsection \<open>C1: the offsets of the annotator and of the aligner\<close>

text \<open>
  C1 does not hold of the code.  The aligner's range is an interval of the text
  projection, which is entity-decoded and stripped; the annotator counts the raw
  characters of the text tokens.  For the old unit \<open><p>x &amp; y</p>\<close> and the new unit
  \<open><p>x &amp; z</p>\<close> the projection of the new unit is \<open>x & z\<close>, the aligner flags
  \<open>[4, 5)\<close>, which is the word \<open>z\<close>, and the annotator wraps the raw characters
  \<open>[4, 5)\<close>, the \<open>m\<close> inside the entity.  For the new unit \<open><p> a c</p>\<close> against
  \<open><p>a b</p>\<close> the stripped leading blank shifts the highlight from \<open>c\<close> to the blank
  before it.
\<close>

theorem C1_offsets_diverge:
  "extract_text_from_element ''<div>x &amp; z</div>'' = ''x & z'' \<and>
   changed_ranges_of (findall WORDS ''x & z'')
       (get_opcodes (findall WORDS ''x & y'') (findall WORDS ''x & z''))
     = [(4, 5, Replace)] \<and>
   slice ''x & z'' 4 5 = ''z'' \<and>
   highlight_changed_elements (Some ''<p>x &amp; y</p>'') ''<p>x &amp; z</p>''
     = Inr (''<p>x &a<mark class=\"preview-text-changed\">m</mark>p; z</p>'', 1) \<and>
   highlight_changed_elements (Some ''<p>a b</p>'') ''<p> a c</p>''
     = Inr (''<p> a<mark class=\"preview-text-changed\"> </mark>c</p>'', 1)"
  by code_simp

subsection \<open>C2: the classification by the best ratio\<close>

text \<open>
  C2 does not hold of the code at the ratio 0.5 itself.  The old unit \<open><p>ab</p>\<close> and
  the new unit \<open><p>ac</p>\<close> have ratio 1/2; the test for a modified unit is
  \<open>best_ratio > 0.5\<close> and the test for an added unit is \<open>best_ratio < 0.5\<close>, so the unit
  is neither paired nor flagged: no old index is used, nothing is logged, and the
  document is unchanged.
\<close>

theorem C2_ratio_one_half_unmatched:
  "best_match ''ac'' {} [(''ab'', ''<p>ab</p>'')] = (Some 0, 1 / 2) \<and>
   run_matcher ''<p>ab</p>'' ''<p>ac</p>''
     = Inr \<lparr>used_old_indices = {}, highlighted_new_html = ''<p>ac</p>'',
             changes_made = 0, pairs = []\<rparr>"
  by code_simp

subsection \<open>C3: removing the markers\<close>

text \<open>
  C3 does not hold of the code.  The highlighted element is given to \<open>re.sub\<close> as a
  replacement template, in which a backslash escapes.  The new document
  \<open><p>a\nb</p>\<close>, with a backslash and the letter \<open>n\<close> in its text, comes back with a
  line feed in their place; with the markers removed it is not the new document.
\<close>

theorem C3_backslash_rewritten:
  "highlight_changed_elements (Some ''<p>q</p>'') (''<p>a'' @ [CHR 0x5C] @ ''nb</p>'')
     = Inr (''<p><mark class=\"preview-element-added\">a'' @ [CHR 0x0A] @ ''b</mark></p>'', 1) \<and>
   strip_markers (''<p><mark class=\"preview-element-added\">a'' @ [CHR 0x0A] @ ''b</mark></p>'')
     = ''<p>a'' @ [CHR 0x0A] @ ''b</p>'' \<and>
   ''<p>a'' @ [CHR 0x0A] @ ''b</p>'' \<noteq> ''<p>a'' @ [CHR 0x5C] @ ''nb</p>''"
  by code_simp

subsection \<open>C5: no error is raised\<close>

text \<open>
  C5 does not hold of the code.  For the new document \<open><p>\pi</p>\<close>, with a backslash
  before the letter \<open>p\<close> in its text, and the old document \<open><p>q</p>\<close>, the replacement
  template has the bad escape \<open>\p\<close>: \<open>re.sub\<close> raises \<open>re.error\<close>, and neither
  \<open>highlight_changed_elements\<close> nor \<open>process_file\<close> catches it.
\<close>

theorem C5_bad_escape_raises:
  "highlight_changed_elements (Some ''<p>q</p>'') (''<p>'' @ [CHR 0x5C] @ ''pi</p>'') = Inl ReError \<and>
   process_file (Some ''<p>q</p>'') (''<p>'' @ [CHR 0x5C] @ ''pi</p>'') = Inl ReError"
  by code_simp

subsection \<open>C7: the entries of the table of contents\<close>

text \<open>
  C7 does not hold of the code.  The first group of the pattern ends after the closing
  quote of the class attribute, so the marker is put behind the attribute, not inside
  its value: the class attribute of the link to the changed file \<open>ch1.html\<close> is still
  \<open>nav\<close>.  When no quote follows the class attribute the pattern does not match and
  the link is left as it was.
\<close>

theorem C7_marker_outside_class:
  "highlight_toc_entries ''<a href=\"ch1.html\" class=\"nav\" id=\"x\">Ch</a>'' [''ch1.html'']
     = ''<a href=\"ch1.html\" class=\"nav\" preview-toc-changed id=\"x\">Ch</a>'' \<and>
   highlight_toc_entries ''<a href=\"ch1.html\" class=\"nav\">Ch</a>'' [''ch1.html'']
     = ''<a href=\"ch1.html\" class=\"nav\">Ch</a>''"
  by code_simp

end
